theory Spec2Isabelle
  imports Complex_Main
begin

section \<open>Python exceptions\<close>

text \<open>
  Every \<^verbatim>\<open>raise\<close>, failed \<^verbatim>\<open>assert\<close>, failed subscript or unbound name of the
  modelled code is a value of this type. \<open>UnboundLocalError\<close> is the subclass of
  \<open>NameError\<close> Python raises for a local variable read before assignment.
  \<open>NaNError\<close> is the exception the docstring of \<^verbatim>\<open>train\<close> announces.
\<close>

datatype error =
    IndexError | KeyError | TypeError | ValueError | AttributeError
  | AssertionError | NotImplementedError | ZeroDivisionError
  | UnboundLocalError | FileNotFoundError | NaNError

section \<open>Floating-point values that may be NaN\<close>

text \<open>
  Finite floats are modelled by real numbers (no rounding, no overflow); \<open>NaN\<close> is the
  not-a-number value, the only one \<^verbatim>\<open>jnp.isnan\<close> detects. Comparisons with
  \<open>NaN\<close> are false, arithmetic on \<open>NaN\<close> gives \<open>NaN\<close>, and \<open>0/0\<close> is \<open>NaN\<close>.
\<close>

datatype fl = Fin real | PosInf | NegInf | NaN

definition isnan :: "fl \<Rightarrow> bool" where
  "isnan x = (x = NaN)"

section \<open>CheckpointStore (deepqmc/jax/train.py, lines 169-217)\<close>

text \<open>
  \<^verbatim>\<open>Checkpoint = namedtuple('Checkpoint', 'step loss path')\<close>. A path is
  \<^verbatim>\<open>workdir / 'chkpt-{step}.pt'\<close>; it is determined by the step number it embeds, so
  a path is modelled by that number.
\<close>

type_synonym path = int

datatype Checkpoint = Checkpoint (ck_step: int) (ck_loss: real) (ck_path: path)

text \<open>
  The object's attributes, and \<open>files\<close>: the checkpoint files of \<^verbatim>\<open>workdir\<close>
  (those matching \<^verbatim>\<open>PATTERN\<close>), each holding the pickled state. The loss is a float
  that is taken to be a number (a real); \<open>size\<close> is an attribute named \<open>size_lim\<close>
  here.
\<close>

record 'st CheckpointStore =
  size_lim :: int
  min_interval :: int
  threshold :: real
  chkpts :: "Checkpoint list"
  step :: int
  buffer :: "'st option"
  files :: "path \<Rightarrow> 'st option"

text \<open>\<^verbatim>\<open>__init__\<close> unlinks every file matching the pattern: no checkpoint file is left.\<close>

definition CheckpointStore_init :: "int \<Rightarrow> int \<Rightarrow> real \<Rightarrow> 'st CheckpointStore" where
  "CheckpointStore_init sz mi th =
     \<lparr>size_lim = sz, min_interval = mi, threshold = th, chkpts = [], step = 0,
      buffer = None, files = (\<lambda>_. None)\<rparr>"

text \<open>\<^verbatim>\<open>dump\<close>: pickle the state into the file named after the current step.\<close>

definition CheckpointStore_dump :: "'st \<Rightarrow> 'st CheckpointStore \<Rightarrow> path \<times> 'st CheckpointStore" where
  "CheckpointStore_dump state s = (step s, s\<lparr>files := (files s)(step s \<mapsto> state)\<rparr>)"

text \<open>
  \<^verbatim>\<open>while len(self.chkpts) > self.size: self.chkpts.pop(0).path.unlink()\<close>.
  \<^verbatim>\<open>pop(0)\<close> of an empty list raises \<open>IndexError\<close>; \<^verbatim>\<open>unlink\<close> of a missing file
  raises \<open>FileNotFoundError\<close> (the entry is popped by then).
\<close>

fun evict :: "int \<Rightarrow> Checkpoint list \<Rightarrow> (path \<Rightarrow> 'st option)
    \<Rightarrow> Checkpoint list \<times> (path \<Rightarrow> 'st option) \<times> error option" where
  "evict sz [] fs = (if 0 > sz then ([], fs, Some IndexError) else ([], fs, None))"
| "evict sz (c # cs) fs =
     (if int (length (c # cs)) > sz
      then (if fs (ck_path c) = None then (cs, fs, Some FileNotFoundError)
            else evict sz cs (fs(ck_path c := None)))
      else (c # cs, fs, None))"

text \<open>
  \<^verbatim>\<open>update(loss, state)\<close>. The result is the store after the call and the exception
  the call raised, if any (the attributes assigned before a raise stay assigned).
  \<^verbatim>\<open>deepcopy\<close> and pickling copy a value, which a HOL value is already.
\<close>

definition CheckpointStore_update ::
    "real \<Rightarrow> 'st \<Rightarrow> 'st CheckpointStore \<Rightarrow> 'st CheckpointStore \<times> error option" where
  "CheckpointStore_update loss state s0 =
     (let s1 = s0\<lparr>step := step s0 + 1\<rparr>;
          s2 = s1\<lparr>buffer := Some state\<rparr>
      in if step s2 < min_interval s2
            \<or> (chkpts s2 \<noteq> []
                \<and> (step s2 < min_interval s2 + ck_step (last (chkpts s2))
                    \<or> loss > threshold s2 * ck_loss (last (chkpts s2))))
         then (s2, None)
         else (let (p, s3) = CheckpointStore_dump state s2;
                   s4 = s3\<lparr>chkpts := chkpts s3 @ [Checkpoint (step s3) loss p]\<rparr>;
                   (cs, fs, err) = evict (size_lim s4) (chkpts s4) (files s4)
               in (s4\<lparr>chkpts := cs, files := fs\<rparr>, err)))"

text \<open>\<^verbatim>\<open>close\<close>: dump the buffer if there is one.\<close>

definition CheckpointStore_close :: "'st CheckpointStore \<Rightarrow> 'st CheckpointStore" where
  "CheckpointStore_close s =
     (case buffer s of None \<Rightarrow> s | Some b \<Rightarrow> snd (CheckpointStore_dump b s))"

text \<open>
  The property \<^verbatim>\<open>last\<close>: \<^verbatim>\<open>self.chkpts[-1]\<close> raises \<open>IndexError\<close> on an empty list,
  opening a missing file raises \<open>FileNotFoundError\<close>.
\<close>

definition CheckpointStore_last :: "'st CheckpointStore \<Rightarrow> error + (int \<times> 'st)" where
  "CheckpointStore_last s =
     (case chkpts s of
        [] \<Rightarrow> Inl IndexError
      | _ # _ \<Rightarrow>
          (let chkpt = last (chkpts s)
           in case files s (ck_path chkpt) of
                None \<Rightarrow> Inl FileNotFoundError
              | Some state \<Rightarrow> Inr (ck_step chkpt, state)))"

text \<open>
  A sequence of \<^verbatim>\<open>update\<close> calls, each \<open>(loss, state)\<close>, run one after the other; it
  stops at the first call that raises.
\<close>

fun updates :: "'st CheckpointStore \<Rightarrow> (real \<times> 'st) list \<Rightarrow> 'st CheckpointStore \<times> error option" where
  "updates s [] = (s, None)"
| "updates s (c # cs) =
     (case CheckpointStore_update (fst c) (snd c) s of
        (s', None) \<Rightarrow> updates s' cs
      | (s', Some e) \<Rightarrow> (s', Some e))"

section \<open>train (deepqmc/jax/train.py, lines 29-166)\<close>

text \<open>
  The training state \<^verbatim>\<open>fit_wf\<close> yields: the log-amplitudes
  \<^verbatim>\<open>train_state.sampler['psi'].log\<close>, which \<^verbatim>\<open>train\<close> inspects, and everything else
  (parameters, optimizer state, the rest of the sampler state), which it only passes on.
\<close>

record 'p TrainState =
  sampler_psi_log :: "fl list"
  payload :: 'p

text \<open>
  One item of the generator \<^verbatim>\<open>fit_wf(...)\<close>: \<^verbatim>\<open>step, train_state, E_loc, stats\<close>.
  Of \<^verbatim>\<open>stats\<close> only \<^verbatim>\<open>stats['E_loc/std']\<close>, the loss handed to the checkpoint store,
  reaches the control flow; \<^verbatim>\<open>E_loc\<close> and the other statistics go to the log sinks.
\<close>

record 'p Yield =
  y_step :: int
  y_train_state :: "'p TrainState"
  y_E_loc_std :: real

text \<open>
  The local variables of \<^verbatim>\<open>train\<close> that the loops read and assign. \<open>l_chkpts\<close> is
  \<open>None\<close> while the name \<^verbatim>\<open>chkpts\<close> is unbound (it is assigned only under
  \<^verbatim>\<open>if workdir:\<close>); \<open>l_pbar\<close> is the range of step indices \<^verbatim>\<open>pbar\<close> iterates.
\<close>

record 'p Locals =
  l_chkpts :: "'p TrainState CheckpointStore option"
  l_pbar :: "int list"
  l_train_state :: "'p TrainState"

datatype flow = Normal | Break | Raise error

datatype 'a result = Returns 'a | Raises error

text \<open>
  The body of the inner \<^verbatim>\<open>for\<close> (lines 132-158) for one yielded item. The loop
  header assigns \<^verbatim>\<open>train_state\<close> first. On a NaN the body reads \<^verbatim>\<open>chkpts.last\<close>,
  rebinds \<^verbatim>\<open>train_state\<close> and \<^verbatim>\<open>pbar = tqdm(range(step, steps))\<close> and breaks.
  Otherwise, under \<^verbatim>\<open>if workdir:\<close> and in mode \<^verbatim>\<open>'train'\<close>, it calls
  \<^verbatim>\<open>chkpts.update(stats['E_loc/std'], train_state)\<close>. The moving average of the energy
  and the writes to the table and the metrics writer do not reach the control flow.
\<close>

definition train_body ::
    "bool \<Rightarrow> bool \<Rightarrow> int \<Rightarrow> 'p Yield \<Rightarrow> 'p Locals \<Rightarrow> 'p Locals \<times> flow" where
  "train_body workdir mode_train steps y L0 =
     (let L = L0\<lparr>l_train_state := y_train_state y\<rparr>
      in if list_ex isnan (sampler_psi_log (l_train_state L))
         then (case l_chkpts L of
                 None \<Rightarrow> (L, Raise UnboundLocalError)
               | Some store \<Rightarrow>
                   (case CheckpointStore_last store of
                      Inl e \<Rightarrow> (L, Raise e)
                    | Inr (step', train_state') \<Rightarrow>
                        (L\<lparr>l_train_state := train_state', l_pbar := [step' .. steps - 1]\<rparr>,
                         Break)))
         else if workdir \<and> mode_train
         then (case l_chkpts L of
                 None \<Rightarrow> (L, Raise UnboundLocalError)
               | Some store \<Rightarrow>
                   (case CheckpointStore_update (y_E_loc_std y) (l_train_state L) store of
                      (store', None) \<Rightarrow> (L\<lparr>l_chkpts := Some store'\<rparr>, Normal)
                    | (store', Some e) \<Rightarrow> (L\<lparr>l_chkpts := Some store'\<rparr>, Raise e)))
         else (L, Normal))"

text \<open>The inner \<^verbatim>\<open>for ... in fit_wf(...)\<close>, over the items the generator yields.\<close>

fun fit_loop ::
    "bool \<Rightarrow> bool \<Rightarrow> int \<Rightarrow> 'p Yield list \<Rightarrow> 'p Locals \<Rightarrow> 'p Locals \<times> flow" where
  "fit_loop workdir mode_train steps [] L = (L, Normal)"
| "fit_loop workdir mode_train steps (y # ys) L =
     (case train_body workdir mode_train steps y L of
        (L', Normal) \<Rightarrow> fit_loop workdir mode_train steps ys L'
      | (L', f) \<Rightarrow> (L', f))"

text \<open>
  The outer \<^verbatim>\<open>for _ in range(max_restarts):\<close> (lines 119-159). Its body is the inner
  loop followed, at the same indentation, by \<^verbatim>\<open>return train_state\<close> (line 159): the
  return is reached when the inner loop runs out and also when it was left by
  \<^verbatim>\<open>break\<close>, so no iteration is followed by another. With no iteration at all the
  function runs off its end and returns \<^verbatim>\<open>None\<close>. The generator is the parameter
  \<open>fit_wf\<close> (module \<^verbatim>\<open>fit\<close>, not among the sources): from the step range \<^verbatim>\<open>pbar\<close>
  and the training state it is called with, the items it yields.
\<close>

fun restart_loop ::
    "bool \<Rightarrow> bool \<Rightarrow> int \<Rightarrow> (int list \<Rightarrow> 'p TrainState \<Rightarrow> 'p Yield list) \<Rightarrow> nat list
      \<Rightarrow> 'p Locals \<Rightarrow> 'p Locals \<times> 'p TrainState option result" where
  "restart_loop workdir mode_train steps fit_wf [] L = (L, Returns None)"
| "restart_loop workdir mode_train steps fit_wf (attempt # attempts) L =
     (case fit_loop workdir mode_train steps (fit_wf (l_pbar L) (l_train_state L)) L of
        (L', Raise e) \<Rightarrow> (L', Raises e)
      | (L', _) \<Rightarrow> (L', Returns (Some (l_train_state L'))))"

text \<open>
  \<^verbatim>\<open>train\<close>. \<open>workdir\<close> is the truth value of the argument \<^verbatim>\<open>workdir\<close>,
  \<open>mode_train\<close> says that an optimizer was given (\<^verbatim>\<open>mode == 'train'\<close>), \<open>init_state\<close>
  is the state \<^verbatim>\<open>(params, None, smpl_state)\<close> after \<^verbatim>\<open>init_fit\<close> and the equilibration
  (both external). The store is built as \<^verbatim>\<open>CheckpointStore(workdir)\<close>: size 3, minimal
  interval 100, threshold 0.95. The \<^verbatim>\<open>finally\<close> clause closes the store when
  \<^verbatim>\<open>workdir\<close> is set. The result is what the call returns or raises, and the store as
  the call leaves it.
\<close>

definition train ::
    "bool \<Rightarrow> bool \<Rightarrow> int \<Rightarrow> int \<Rightarrow> 'p TrainState
      \<Rightarrow> (int list \<Rightarrow> 'p TrainState \<Rightarrow> 'p Yield list)
      \<Rightarrow> 'p TrainState option result \<times> 'p TrainState CheckpointStore option" where
  "train workdir mode_train steps max_restarts init_state fit_wf =
     (let chkpts0 = (if workdir then Some (CheckpointStore_init 3 100 0.95) else None);
          L0 = \<lparr>l_chkpts = chkpts0, l_pbar = [0 .. steps - 1], l_train_state = init_state\<rparr>;
          (L1, res) = restart_loop workdir mode_train steps fit_wf [0 ..< nat max_restarts] L0
      in (res, if workdir then map_option CheckpointStore_close (l_chkpts L1)
               else l_chkpts L1))"

section \<open>MoleculeIdxSampler (deepqmc/sampling.py, lines 272-302)\<close>

text \<open>
  \<^verbatim>\<open>shuffle in [False, 'once', 'always']\<close>, which \<^verbatim>\<open>__init__\<close> asserts.
\<close>

datatype shuffle_mode = NoShuffle | Once | Always

text \<open>
  The attributes of the object (each with the suffix \<open>_m\<close>, but for the two sizes).
  \<open>'k\<close> is the type of the keys of \<^verbatim>\<open>jax.random\<close>.
\<close>

record 'k MoleculeIdxSampler =
  rng_m :: 'k
  n_mols :: nat
  batch_size :: nat
  state_m :: nat
  shuffle_m :: shuffle_mode
  permutation_m :: "nat list"

text \<open>
  \<^verbatim>\<open>new_permutation\<close>. The two functions of \<^verbatim>\<open>jax.random\<close> are parameters: \<open>split2\<close>
  is \<^verbatim>\<open>jax.random.split(rng)\<close>, \<open>rperm\<close> is \<^verbatim>\<open>jax.random.permutation(rng, x)\<close>.
  The result is the permutation and the object, whose key the mode \<^verbatim>\<open>'always'\<close>
  replaces.
\<close>

definition new_permutation ::
    "('k \<Rightarrow> 'k \<times> 'k) \<Rightarrow> ('k \<Rightarrow> nat list \<Rightarrow> nat list) \<Rightarrow> 'k MoleculeIdxSampler
      \<Rightarrow> nat list \<times> 'k MoleculeIdxSampler" where
  "new_permutation split2 rperm self =
     (let permutation = [0 ..< n_mols self]
      in if shuffle_m self \<noteq> NoShuffle
         then (let (rng_next, rng) = split2 (rng_m self);
                   permutation' = rperm rng permutation
               in (permutation',
                   if shuffle_m self = Always then self\<lparr>rng_m := rng_next\<rparr> else self))
         else (permutation, self))"

definition MoleculeIdxSampler_init ::
    "('k \<Rightarrow> 'k \<times> 'k) \<Rightarrow> ('k \<Rightarrow> nat list \<Rightarrow> nat list) \<Rightarrow> 'k \<Rightarrow> nat \<Rightarrow> nat \<Rightarrow> shuffle_mode
      \<Rightarrow> 'k MoleculeIdxSampler" where
  "MoleculeIdxSampler_init split2 rperm rng n b shuffle =
     (let self = \<lparr>rng_m = rng, n_mols = n, batch_size = b, state_m = 0, shuffle_m = shuffle,
                  permutation_m = []\<rparr>;
          (permutation, self') = new_permutation split2 rperm self
      in self'\<lparr>permutation_m := permutation\<rparr>)"

text \<open>
  \<^verbatim>\<open>permutation[idx]\<close> for an index array: JAX clamps an index past the end to the last
  element.
\<close>

definition gather_clamped :: "'a list \<Rightarrow> nat list \<Rightarrow> 'a list" where
  "gather_clamped xs idx = map (\<lambda>i. xs ! min i (length xs - 1)) idx"

text \<open>
  \<^verbatim>\<open>sample\<close>: the indices of the batch and the object after the call.
  \<^verbatim>\<open>replicate_on_devices\<close> (external) copies the value to every device; the value is
  what is returned here. With no geometry, \<^verbatim>\<open>% self.n_mols\<close> raises
  \<open>ZeroDivisionError\<close> (if the indexing of the empty permutation has not raised before).
\<close>

definition MoleculeIdxSampler_sample ::
    "('k \<Rightarrow> 'k \<times> 'k) \<Rightarrow> ('k \<Rightarrow> nat list \<Rightarrow> nat list) \<Rightarrow> 'k MoleculeIdxSampler
      \<Rightarrow> error + (nat list \<times> 'k MoleculeIdxSampler)" where
  "MoleculeIdxSampler_sample split2 rperm self =
     (if n_mols self = 0 then Inl ZeroDivisionError
      else
        (let idx = [state_m self ..< min (state_m self + batch_size self) (n_mols self)];
             value = [gather_clamped (permutation_m self) idx];
             (value', self') =
               (if length idx < batch_size self
                then (let (permutation, self1) = new_permutation split2 rperm self;
                          self2 = self1\<lparr>permutation_m := permutation\<rparr>;
                          idx' = [0 ..< batch_size self - length idx]
                      in (value @ [gather_clamped (permutation_m self2) idx'], self2))
                else (value, self));
             self'' = self'\<lparr>state_m := (state_m self' + batch_size self') mod n_mols self'\<rparr>
         in Inr (concat value', self'')))"

text \<open>\<open>m\<close> calls of \<^verbatim>\<open>sample\<close> in a row: the batches returned, in order.\<close>

fun sample_calls ::
    "('k \<Rightarrow> 'k \<times> 'k) \<Rightarrow> ('k \<Rightarrow> nat list \<Rightarrow> nat list) \<Rightarrow> nat \<Rightarrow> 'k MoleculeIdxSampler
      \<Rightarrow> error + (nat list list \<times> 'k MoleculeIdxSampler)" where
  "sample_calls split2 rperm 0 self = Inr ([], self)"
| "sample_calls split2 rperm (Suc m) self =
     (case MoleculeIdxSampler_sample split2 rperm self of
        Inl e \<Rightarrow> Inl e
      | Inr (v, self') \<Rightarrow>
          (case sample_calls split2 rperm m self' of
             Inl e \<Rightarrow> Inl e
           | Inr (vs, self'') \<Rightarrow> Inr (v # vs, self'')))"

section \<open>Arrays, walker states and configurations (deepqmc/sampling.py)\<close>

text \<open>
  A JAX array is a number (dimension 0) or a sequence of arrays along its first axis.
  Its entries are finite floats, modelled by reals.
\<close>

datatype arr = Num real | Arr "arr list"

fun ndim :: "arr \<Rightarrow> nat" where
  "ndim (Num x) = 0"
| "ndim (Arr []) = 1"
| "ndim (Arr (a # as)) = Suc (ndim a)"

fun zeros_like :: "arr \<Rightarrow> arr" where
  "zeros_like (Num x) = Num 0"
| "zeros_like (Arr as) = Arr (map zeros_like as)"

text \<open>An elementwise operation, such as \<^verbatim>\<open>jnp.exp\<close>.\<close>

fun arr_map :: "(real \<Rightarrow> real) \<Rightarrow> arr \<Rightarrow> arr" where
  "arr_map f (Num x) = Num (f x)"
| "arr_map f (Arr as) = Arr (map (arr_map f) as)"

text \<open>All entries of an array, in order (what \<^verbatim>\<open>jnp.sum\<close> adds up).\<close>

fun entries :: "arr \<Rightarrow> real list" where
  "entries (Num x) = [x]"
| "entries (Arr as) = concat (map entries as)"

text \<open>
  \<^verbatim>\<open>x[idx]\<close> for an array of indices: selection along the first axis, an index past
  the end clamped to the last position. An array of dimension 0 cannot be indexed, and
  nothing can be taken from an empty axis.
\<close>

definition take_idx :: "arr \<Rightarrow> nat list \<Rightarrow> error + arr" where
  "take_idx a idx =
     (case a of
        Num x \<Rightarrow> Inl IndexError
      | Arr as \<Rightarrow> (if as = [] \<and> idx \<noteq> [] then Inl IndexError
                  else Inr (Arr (gather_clamped as idx))))"

text \<open>
  A value of the state dictionary: an array, or the pair \<^verbatim>\<open>Psi(sign, log)\<close> of arrays
  under the key \<^verbatim>\<open>'psi'\<close>. The state is a dictionary from keys to such values.
\<close>

datatype val = Leaf arr | Psi arr arr

type_synonym state = "string \<Rightarrow> val option"

text \<open>\<^verbatim>\<open>jax.tree_util.tree_map(lambda x: x[idx], v)\<close> on one value.\<close>

definition take_val :: "val \<Rightarrow> nat list \<Rightarrow> error + val" where
  "take_val v idx =
     (case v of
        Leaf a \<Rightarrow> (case take_idx a idx of Inl e \<Rightarrow> Inl e | Inr a' \<Rightarrow> Inr (Leaf a'))
      | Psi s l \<Rightarrow>
          (case take_idx s idx of
             Inl e \<Rightarrow> Inl e
           | Inr s' \<Rightarrow> (case take_idx l idx of Inl e \<Rightarrow> Inl e | Inr l' \<Rightarrow> Inr (Psi s' l'))))"

text \<open>
  Modelled from the spec: \<^verbatim>\<open>split_dict(d, pred)\<close> of module \<^verbatim>\<open>utils\<close>, which is not among
  the sources and which the spec does not describe further. Its two uses in the source
  (\<^verbatim>\<open>state, other = split_dict(state, lambda k: k in self.WALKER_STATE)\<close>) fix what is
  modelled: the entries whose key satisfies the predicate, and the others.
\<close>

definition split_dict :: "state \<Rightarrow> (string \<Rightarrow> bool) \<Rightarrow> state \<times> state" where
  "split_dict d p = ((\<lambda>k. if p k then d k else None), (\<lambda>k. if p k then None else d k))"

text \<open>The values of a statistics dictionary are floats; \<open>NaN\<close> can arise from \<open>0/0\<close>.\<close>

type_synonym stats = "string \<Rightarrow> fl option"

text \<open>
  \<^verbatim>\<open>PhysicalConfiguration(R, r, mol_idx)\<close> and \<^verbatim>\<open>MetropolisSampler.phys_conf\<close> (lines
  125-133), for nuclear coordinates \<^verbatim>\<open>R\<close> of dimension 2: a single sample (\<^verbatim>\<open>r\<close> of
  dimension 2) keeps \<^verbatim>\<open>R\<close>; a batch gets \<^verbatim>\<open>R\<close> once per sample. \<^verbatim>\<open>len(r)\<close> of an
  array of dimension 0 raises \<open>TypeError\<close>.
\<close>

record PhysicalConfiguration =
  pc_R :: arr
  pc_r :: arr
  pc_mol_idx :: arr

definition phys_conf :: "arr \<Rightarrow> arr \<Rightarrow> error + PhysicalConfiguration" where
  "phys_conf R r =
     (if ndim r = 2 then Inr \<lparr>pc_R = R, pc_r = r, pc_mol_idx = Num 0\<rparr>
      else (case r of
              Num x \<Rightarrow> Inl TypeError
            | Arr rs \<Rightarrow>
                (let n_smpl = length rs
                 in Inr \<lparr>pc_R = Arr (replicate n_smpl R), pc_r = r,
                         pc_mol_idx = Arr (replicate n_smpl (Num 0))\<rparr>)))"

section \<open>Sampler classes and chain (deepqmc/sampling.py, lines 26-269 and 342-364)\<close>

text \<open>
  The sampler classes that \<^verbatim>\<open>chain\<close> combines, their names, and the linearisation
  (method resolution order) of each; \<^verbatim>\<open>object\<close>, which ends every linearisation and
  defines no method of a sampler, is left out.
\<close>

datatype cls = Sampler | MetropolisSampler | LangevinSampler | DecorrSampler | ResampledSampler

fun cls_name :: "cls \<Rightarrow> string" where
  "cls_name Sampler = ''Sampler''"
| "cls_name MetropolisSampler = ''MetropolisSampler''"
| "cls_name LangevinSampler = ''LangevinSampler''"
| "cls_name DecorrSampler = ''DecorrSampler''"
| "cls_name ResampledSampler = ''ResampledSampler''"

fun mro_of :: "cls \<Rightarrow> cls list" where
  "mro_of Sampler = [Sampler]"
| "mro_of MetropolisSampler = [MetropolisSampler, Sampler]"
| "mro_of LangevinSampler = [LangevinSampler, MetropolisSampler, Sampler]"
| "mro_of DecorrSampler = [DecorrSampler, Sampler]"
| "mro_of ResampledSampler = [ResampledSampler, Sampler]"

text \<open>
  The values of instance attributes: \<^verbatim>\<open>None\<close>, an integer, a float, or an external
  object (the Hamiltonian, the wave function), known by a number only.
\<close>

datatype pyval = PNone | PInt int | PFloat real | PObj nat

type_synonym attrs = "string \<Rightarrow> pyval option"

text \<open>An instance of one of the classes: its class and its \<^verbatim>\<open>__dict__\<close>.\<close>

record sampler_obj =
  obj_cls :: cls
  obj_dict :: attrs

text \<open>
  The constructors. \<^verbatim>\<open>LangevinSampler\<close> inherits \<^verbatim>\<open>MetropolisSampler.__init__\<close>.
  \<^verbatim>\<open>ResampledSampler.__init__\<close> asserts that a period or a threshold is given.
\<close>

definition mover_init :: "cls \<Rightarrow> pyval \<Rightarrow> pyval \<Rightarrow> pyval \<Rightarrow> pyval \<Rightarrow> pyval \<Rightarrow> sampler_obj" where
  "mover_init c hamil wfn tau target_acceptance max_age =
     \<lparr>obj_cls = c,
      obj_dict = [''hamil'' \<mapsto> hamil, ''initial_tau'' \<mapsto> tau,
                  ''target_acceptance'' \<mapsto> target_acceptance, ''max_age'' \<mapsto> max_age,
                  ''wf'' \<mapsto> wfn]\<rparr>"

definition MetropolisSampler_init :: "pyval \<Rightarrow> pyval \<Rightarrow> pyval \<Rightarrow> pyval \<Rightarrow> pyval \<Rightarrow> sampler_obj" where
  "MetropolisSampler_init = mover_init MetropolisSampler"

definition LangevinSampler_init :: "pyval \<Rightarrow> pyval \<Rightarrow> pyval \<Rightarrow> pyval \<Rightarrow> pyval \<Rightarrow> sampler_obj" where
  "LangevinSampler_init = mover_init LangevinSampler"

definition DecorrSampler_init :: "pyval \<Rightarrow> sampler_obj" where
  "DecorrSampler_init len = \<lparr>obj_cls = DecorrSampler, obj_dict = [''length'' \<mapsto> len]\<rparr>"


subsection \<open>Creating the chained class\<close>

text \<open>
  \<^verbatim>\<open>str.replace(old, new)\<close> for a non-empty \<open>old\<close>: every occurrence, left to right,
  without overlap. The counter says how many characters of a match are still to skip.
\<close>

fun replace_from :: "string \<Rightarrow> string \<Rightarrow> nat \<Rightarrow> string \<Rightarrow> string" where
  "replace_from old new k [] = []"
| "replace_from old new (Suc k) (c # cs) = replace_from old new k cs"
| "replace_from old new 0 (c # cs) =
     (if take (length old) (c # cs) = old
      then new @ replace_from old new (length old - 1) cs
      else c # replace_from old new 0 cs)"

definition str_replace :: "string \<Rightarrow> string \<Rightarrow> string \<Rightarrow> string" where
  "str_replace s old new = replace_from old new 0 s"

text \<open>
  The linearisation Python computes for a new class (C3): merge the linearisations of
  the bases and the list of bases. A head is good if no list has it in its tail; the
  first good head is emitted and removed from the front of every list; with lists left
  and no good head, the class cannot be created (\<open>None\<close>).
\<close>

definition good_head :: "cls list list \<Rightarrow> cls list \<Rightarrow> bool" where
  "good_head seqs s \<longleftrightarrow> s \<noteq> [] \<and> list_all (\<lambda>t. hd s \<notin> set (tl t)) seqs"

definition drop_head :: "cls \<Rightarrow> cls list \<Rightarrow> cls list" where
  "drop_head c t = (if t \<noteq> [] \<and> hd t = c then tl t else t)"

function c3_merge :: "cls list list \<Rightarrow> cls list option" where
  "c3_merge seqs =
     (if list_all (\<lambda>s. s = []) seqs then Some []
      else (case find (good_head seqs) seqs of
              None \<Rightarrow> None
            | Some s \<Rightarrow> map_option ((#) (hd s)) (c3_merge (map (drop_head (hd s)) seqs))))"
  by pat_completeness auto

text \<open>
  \<^verbatim>\<open>chain(*samplers)\<close>: the object it returns has the synthesized class (name, and the
  linearisation after the class itself, which defines \<^verbatim>\<open>__init__\<close> only) and the union
  of the instances' dictionaries, a later sampler overwriting an earlier one.
  \<^verbatim>\<open>type(name, bases, dict)\<close> raises \<open>TypeError\<close> for a base listed twice and when
  the bases have no consistent linearisation; \<^verbatim>\<open>chain\<close> itself checks nothing.
\<close>

record chained_obj =
  ch_name :: string
  ch_mro :: "cls list"
  ch_dict :: attrs

definition chain :: "sampler_obj list \<Rightarrow> error + chained_obj" where
  "chain samplers =
     (let bases = map obj_cls samplers;
          name = fold (\<lambda>base name. str_replace name ''Sampler'' (cls_name base)) bases ''Sampler''
      in if \<not> distinct bases then Inl TypeError
         else (case c3_merge (map mro_of bases @ [bases]) of
                 None \<Rightarrow> Inl TypeError
               | Some mro \<Rightarrow>
                   Inr \<lparr>ch_name = name, ch_mro = mro,
                        ch_dict = fold (\<lambda>sampler d. d ++ obj_dict sampler) samplers Map.empty\<rparr>))"

text \<open>An instance on its own, seen as \<^verbatim>\<open>chain\<close> sees objects: its class's linearisation.\<close>

definition as_chained :: "sampler_obj \<Rightarrow> chained_obj" where
  "as_chained s = \<lparr>ch_name = cls_name (obj_cls s), ch_mro = mro_of (obj_cls s), ch_dict = obj_dict s\<rparr>"

section \<open>The sample methods (deepqmc/sampling.py, lines 87-123, 190-198, 243-269)\<close>

text \<open>
  What the samplers call outside this file, as parameters. \<open>'k\<close> is the type of random
  keys.
  \<^item> \<open>e_split rng n\<close>: \<^verbatim>\<open>jax.random.split(rng, n)\<close>.
  \<^item> \<open>e_multinomial rng w\<close>: \<^verbatim>\<open>multinomial_resampling(rng, w)\<close> (module \<^verbatim>\<open>utils\<close>), the
    drawn walker indices.
  \<^item> \<open>e_kernel c a R rng state\<close>: lines 88-122 of \<^verbatim>\<open>MetropolisSampler.sample\<close>, that is
    the proposal, the evaluation of the ansatz, the acceptance and the adaptation of the
    step size, giving the new state and the statistics. It calls \<^verbatim>\<open>jax.random\<close>, the
    wave function \<^verbatim>\<open>self.wf\<close> with the parameters, and \<^verbatim>\<open>pairwise_self_distance\<close>.
    \<open>c\<close> is the class whose \<^verbatim>\<open>_update\<close>, \<^verbatim>\<open>_proposal\<close>, \<^verbatim>\<open>_acc_log_prob\<close> and
    \<^verbatim>\<open>WALKER_STATE\<close> the object resolves to, \<open>a\<close> the attributes that
    \<^verbatim>\<open>MetropolisSampler.__init__\<close> sets, which are all that these lines read of the
    object.
\<close>

record 'k env =
  e_split :: "'k \<Rightarrow> nat \<Rightarrow> 'k list"
  e_multinomial :: "'k \<Rightarrow> arr \<Rightarrow> nat list"
  e_kernel :: "cls \<Rightarrow> attrs \<Rightarrow> arr \<Rightarrow> 'k \<Rightarrow> state \<Rightarrow> state \<times> stats"

definition mover_attrs :: "string set" where
  "mover_attrs = {''hamil'', ''initial_tau'', ''target_acceptance'', ''max_age'', ''wf''}"

text \<open>
  Attribute lookup along the linearisation. \<^verbatim>\<open>_update\<close>, \<^verbatim>\<open>_proposal\<close> and
  \<^verbatim>\<open>_acc_log_prob\<close> are defined by \<^verbatim>\<open>LangevinSampler\<close> and \<^verbatim>\<open>MetropolisSampler\<close>;
  \<^verbatim>\<open>WALKER_STATE\<close> likewise; \<^verbatim>\<open>phys_conf\<close> by \<^verbatim>\<open>MetropolisSampler\<close> only.
\<close>

definition mover_cls :: "cls list \<Rightarrow> cls option" where
  "mover_cls mro = find (\<lambda>c. c = LangevinSampler \<or> c = MetropolisSampler) mro"

definition WALKER_STATE :: "cls list \<Rightarrow> error + string list" where
  "WALKER_STATE mro =
     (case mover_cls mro of
        None \<Rightarrow> Inl AttributeError
      | Some c \<Rightarrow> Inr (if c = LangevinSampler then [''r'', ''psi'', ''age'', ''force'']
                        else [''r'', ''psi'', ''age'']))"

definition self_phys_conf :: "cls list \<Rightarrow> arr \<Rightarrow> state \<Rightarrow> error + PhysicalConfiguration" where
  "self_phys_conf mro R st =
     (if MetropolisSampler \<notin> set mro then Inl AttributeError
      else (case st ''r'' of
              None \<Rightarrow> Inl KeyError
            | Some (Leaf r) \<Rightarrow> phys_conf R r
            | Some (Psi s l) \<Rightarrow> Inl AttributeError))"

text \<open>
  \<^verbatim>\<open>MetropolisSampler.sample\<close>: the kernel, then line 123,
  \<^verbatim>\<open>return state, self.phys_conf(R, state['r']), stats\<close>.
\<close>

definition MetropolisSampler_sample ::
    "'k env \<Rightarrow> cls list \<Rightarrow> attrs \<Rightarrow> arr \<Rightarrow> 'k \<Rightarrow> state
      \<Rightarrow> error + (state \<times> PhysicalConfiguration \<times> stats)" where
  "MetropolisSampler_sample E mro d R rng st =
     (case mover_cls mro of
        None \<Rightarrow> Inl AttributeError
      | Some c \<Rightarrow>
          (let (st', stats) = e_kernel E c (d |` mover_attrs) R rng st
           in case self_phys_conf mro R st' of
                Inl e \<Rightarrow> Inl e
              | Inr conf \<Rightarrow> Inr (st', conf, stats)))"

text \<open>
  \<^verbatim>\<open>lax.scan(f, init, xs)\<close>: the carry threaded through \<open>xs\<close>, and the outputs stacked.
\<close>

fun scan :: "('c \<Rightarrow> 'x \<Rightarrow> error + ('c \<times> 'y)) \<Rightarrow> 'c \<Rightarrow> 'x list \<Rightarrow> error + ('c \<times> 'y list)" where
  "scan f c [] = Inr (c, [])"
| "scan f c (x # xs) =
     (case f c x of
        Inl e \<Rightarrow> Inl e
      | Inr (c', y) \<Rightarrow>
          (case scan f c' xs of Inl e \<Rightarrow> Inl e | Inr (c'', ys) \<Rightarrow> Inr (c'', y # ys)))"

text \<open>
  \<^verbatim>\<open>DecorrSampler.sample\<close>. \<open>super_sample\<close> is \<^verbatim>\<open>super().sample\<close>; the scanned function
  keeps components 0 and 2 of its result (\<^verbatim>\<open>[::2]\<close>); \<^verbatim>\<open>v[-1]\<close> of the stacked
  statistics is the statistics of the last step, and raises \<open>IndexError\<close> when there was
  no step.
\<close>

definition DecorrSampler_sample ::
    "'k env \<Rightarrow> cls list \<Rightarrow> attrs
      \<Rightarrow> ('k \<Rightarrow> state \<Rightarrow> error + (state \<times> PhysicalConfiguration \<times> stats))
      \<Rightarrow> arr \<Rightarrow> 'k \<Rightarrow> state \<Rightarrow> error + (state \<times> PhysicalConfiguration \<times> stats)" where
  "DecorrSampler_sample E mro d super_sample R rng st =
     (case d ''length'' of
        None \<Rightarrow> Inl AttributeError
      | Some (PInt len) \<Rightarrow>
          (if len < 0 then Inl ValueError
           else (case scan (\<lambda>state rng'.
                              case super_sample rng' state of
                                Inl e \<Rightarrow> Inl e
                              | Inr (state', conf, stats) \<Rightarrow> Inr (state', stats))
                        st (e_split E rng (nat len)) of
                   Inl e \<Rightarrow> Inl e
                 | Inr (st', stacked) \<Rightarrow>
                     (if stacked = [] then Inl IndexError
                      else (case self_phys_conf mro R st' of
                              Inl e \<Rightarrow> Inl e
                            | Inr conf \<Rightarrow> Inr (st', conf, last stacked)))))
      | Some other \<Rightarrow> Inl TypeError)"

text \<open>
  The effective sample size of line 259,
  \<^verbatim>\<open>jnp.sum(weight) ** 2 / jnp.sum(weight**2)\<close> for \<^verbatim>\<open>weight = jnp.exp(log_weight)\<close>:
  \<open>0/0\<close>, which arises for an array without entries, is \<open>NaN\<close>.
\<close>

definition ess_of :: "arr \<Rightarrow> fl" where
  "ess_of log_weight =
     (let weight = map exp (entries log_weight);
          den = sum_list (map (\<lambda>w. w ^ 2) weight)
      in if den = 0 then NaN else Fin ((sum_list weight) ^ 2 / den))"

text \<open>
  The condition of lines 262-263,
  \<^verbatim>\<open>(self.period is not None and state['step'] >= self.period) |
  (self.treshold is not None and ess / len(weight) < self.treshold)\<close>. Both sides of
  \<^verbatim>\<open>|\<close> are evaluated. A number cannot be compared with an external object;
  \<^verbatim>\<open>len\<close> of an array of dimension 0 raises \<open>TypeError\<close>; a comparison with \<open>NaN\<close> is
  false.
\<close>

definition resample_pred :: "pyval \<Rightarrow> pyval \<Rightarrow> real \<Rightarrow> arr \<Rightarrow> error + bool" where
  "resample_pred period treshold stp log_weight =
     (case (case period of
              PNone \<Rightarrow> Inr False
            | PInt p \<Rightarrow> Inr (stp \<ge> real_of_int p)
            | PFloat p \<Rightarrow> Inr (stp \<ge> p)
            | PObj x \<Rightarrow> Inl TypeError) of
        Inl e \<Rightarrow> Inl e
      | Inr by_period \<Rightarrow>
          (case (case treshold of
                   PNone \<Rightarrow> Inr None
                 | PInt t \<Rightarrow> Inr (Some (real_of_int t))
                 | PFloat t \<Rightarrow> Inr (Some t)
                 | PObj x \<Rightarrow> Inl TypeError) of
             Inl e \<Rightarrow> Inl e
           | Inr None \<Rightarrow> Inr by_period
           | Inr (Some t) \<Rightarrow>
               (case log_weight of
                  Num x \<Rightarrow> Inl TypeError
                | Arr ws \<Rightarrow>
                    Inr (by_period \<or>
                         (case ess_of log_weight of
                            Fin e \<Rightarrow> ws \<noteq> [] \<and> e / real (length ws) < t
                          | _ \<Rightarrow> False)))))"

text \<open>
  The walker-state entries of a dictionary, each taken at the drawn indices
  (\<^verbatim>\<open>tree_map(lambda x: x[idx], state)\<close> on the entries \<^verbatim>\<open>split_dict\<close> selected).
\<close>

fun take_all :: "state \<Rightarrow> string list \<Rightarrow> nat list \<Rightarrow> error + state" where
  "take_all d [] idx = Inr d"
| "take_all d (k # ks) idx =
     (case d k of
        None \<Rightarrow> take_all d ks idx
      | Some v \<Rightarrow>
          (case take_val v idx of
             Inl e \<Rightarrow> Inl e
           | Inr v' \<Rightarrow> take_all (d(k \<mapsto> v')) ks idx))"

text \<open>\<^verbatim>\<open>ResampledSampler.resample_walkers\<close> (lines 243-252).\<close>

definition resample_walkers ::
    "'k env \<Rightarrow> cls list \<Rightarrow> 'k \<Rightarrow> state \<Rightarrow> error + state" where
  "resample_walkers E mro rng_re st =
     (case st ''log_weight'' of
        None \<Rightarrow> Inl KeyError
      | Some (Psi s l) \<Rightarrow> Inl TypeError
      | Some (Leaf lw) \<Rightarrow>
          (let idx = e_multinomial E rng_re (arr_map exp lw)
           in case WALKER_STATE mro of
                Inl e \<Rightarrow> Inl e
              | Inr ws \<Rightarrow>
                  (let (walker, other) = split_dict st (\<lambda>k. k \<in> set ws)
                   in case take_all walker ws idx of
                        Inl e \<Rightarrow> Inl e
                      | Inr walker' \<Rightarrow>
                          (case other ''log_weight'' of
                             None \<Rightarrow> Inl KeyError
                           | Some (Psi s l) \<Rightarrow> Inl TypeError
                           | Some (Leaf lw') \<Rightarrow>
                               Inr ((walker' ++ other)
                                     (''step'' \<mapsto> Leaf (Num 0),
                                      ''log_weight'' \<mapsto> Leaf (zeros_like lw')))))))"

text \<open>
  \<^verbatim>\<open>ResampledSampler.sample\<close> (lines 254-269). \<^verbatim>\<open>rng_re, rng_smpl = jax.random.split(rng)\<close>
  needs two keys; \<^verbatim>\<open>state['step'] += 1\<close> needs the counter, a number, and the
  weights need an array under \<^verbatim>\<open>'log_weight'\<close>.
\<close>

definition ResampledSampler_sample ::
    "'k env \<Rightarrow> cls list \<Rightarrow> attrs
      \<Rightarrow> ('k \<Rightarrow> state \<Rightarrow> error + (state \<times> PhysicalConfiguration \<times> stats))
      \<Rightarrow> arr \<Rightarrow> 'k \<Rightarrow> state \<Rightarrow> error + (state \<times> PhysicalConfiguration \<times> stats)" where
  "ResampledSampler_sample E mro d super_sample R rng st0 =
     (case e_split E rng 2 of
        [rng_re, rng_smpl] \<Rightarrow>
          (case super_sample rng_smpl st0 of
             Inl e \<Rightarrow> Inl e
           | Inr (st1, conf1, stats1) \<Rightarrow>
               (case st1 ''step'' of
                  None \<Rightarrow> Inl KeyError
                | Some (Leaf (Num stp)) \<Rightarrow>
                    (let st2 = st1(''step'' \<mapsto> Leaf (Num (stp + 1)))
                     in case st2 ''log_weight'' of
                          None \<Rightarrow> Inl KeyError
                        | Some (Leaf log_weight) \<Rightarrow>
                            (let ess = ess_of log_weight;
                                 stats2 = stats1(''sampling/effective sample size'' \<mapsto> ess)
                             in case (d ''period'', d ''treshold'') of
                                  (Some period, Some treshold) \<Rightarrow>
                                    (case resample_pred period treshold (stp + 1) log_weight of
                                       Inl e \<Rightarrow> Inl e
                                     | Inr pred \<Rightarrow>
                                         (case (if pred then resample_walkers E mro rng_re st2
                                                else Inr st2) of
                                            Inl e \<Rightarrow> Inl e
                                          | Inr st3 \<Rightarrow>
                                              (case self_phys_conf mro R st3 of
                                                 Inl e \<Rightarrow> Inl e
                                               | Inr conf \<Rightarrow> Inr (st3, conf, stats2))))
                                | _ \<Rightarrow> Inl AttributeError)
                        | Some other \<Rightarrow> Inl TypeError)
                | Some other \<Rightarrow> Inl TypeError))
      | _ \<Rightarrow> Inl ValueError)"

text \<open>
  The method \<^verbatim>\<open>sample\<close> of an object: the first class of the linearisation that defines
  it. \<open>sample_from E mro d cs\<close> looks through \<open>cs\<close>, a tail of the linearisation \<open>mro\<close>,
  so that \<^verbatim>\<open>super().sample\<close> in a class is the lookup in the classes after it.
  \<^verbatim>\<open>Sampler.sample\<close> raises \<open>NotImplementedError\<close>; \<^verbatim>\<open>LangevinSampler\<close> defines no
  \<^verbatim>\<open>sample\<close>; past the last class the attribute is missing.
\<close>

primrec sample_from ::
    "'k env \<Rightarrow> cls list \<Rightarrow> attrs \<Rightarrow> cls list
      \<Rightarrow> arr \<Rightarrow> 'k \<Rightarrow> state \<Rightarrow> error + (state \<times> PhysicalConfiguration \<times> stats)" where
  "sample_from E mro d [] = (\<lambda>R rng st. Inl AttributeError)"
| "sample_from E mro d (c # cs) =
     (case c of
        Sampler \<Rightarrow> (\<lambda>R rng st. Inl NotImplementedError)
      | MetropolisSampler \<Rightarrow> MetropolisSampler_sample E mro d
      | LangevinSampler \<Rightarrow> sample_from E mro d cs
      | DecorrSampler \<Rightarrow> (\<lambda>R. DecorrSampler_sample E mro d (sample_from E mro d cs R) R)
      | ResampledSampler \<Rightarrow> (\<lambda>R. ResampledSampler_sample E mro d (sample_from E mro d cs R) R))"

definition sample ::
    "'k env \<Rightarrow> chained_obj \<Rightarrow> arr \<Rightarrow> 'k \<Rightarrow> state
      \<Rightarrow> error + (state \<times> PhysicalConfiguration \<times> stats)" where
  "sample E self = sample_from E (ch_mro self) (ch_dict self) (ch_mro self)"

section \<open>Force cleaning (deepqmc/sampling.py, lines 367-396)\<close>

text \<open>
  Vectors of three coordinates, with their dot product and norm. A result \<open>None\<close>
  stands for a value that is not a number: the model computes with reals and writes
  out the two operations that leave them on finite inputs, the division by zero and
  the square root of a negative number.
\<close>

type_synonym vec3 = "real \<times> real \<times> real"

definition dot :: "vec3 \<Rightarrow> vec3 \<Rightarrow> real" where
  "dot u v = (case u of (u1, u2, u3) \<Rightarrow> case v of (v1, v2, v3) \<Rightarrow> u1 * v1 + u2 * v2 + u3 * v3)"


definition scale :: "real \<Rightarrow> vec3 \<Rightarrow> vec3" where
  "scale a v = (case v of (v1, v2, v3) \<Rightarrow> (a * v1, a * v2, a * v3))"











subsection \<open>The persistence rule in the words of the specification\<close>

text \<open>
  The specification: an update ``persists only if \<open>step >= min_interval\<close> AND (no prior
  checkpoint OR (\<open>step - last.step >= min_interval\<close> AND
  \<open>loss <= threshold * last.loss\<close>))''. \<open>spec_gate\<close> is that condition, for the step
  counter of the call and the step and loss of the most recently persisted checkpoint
  (\<open>None\<close> when none was persisted).
\<close>

definition spec_gate :: "int \<Rightarrow> real \<Rightarrow> int \<Rightarrow> (int \<times> real) option \<Rightarrow> real \<Rightarrow> bool" where
  "spec_gate mi th stp lastc loss \<longleftrightarrow>
     stp \<ge> mi \<and>
     (case lastc of
        None \<Rightarrow> True
      | Some (last_step, last_loss) \<Rightarrow> stp - last_step \<ge> mi \<and> loss \<le> th * last_loss)"


text \<open>The counter and the last persisted checkpoint after such a sequence of calls.\<close>

fun spec_after :: "int \<Rightarrow> real \<Rightarrow> int \<Rightarrow> (int \<times> real) option \<Rightarrow> real list \<Rightarrow> int \<times> (int \<times> real) option" where
  "spec_after mi th k lastc [] = (k, lastc)"
| "spec_after mi th k lastc (loss # ls) =
     spec_after mi th (k + 1)
       (if spec_gate mi th (k + 1) lastc loss then Some (k + 1, loss) else lastc) ls"

subsection \<open>The invariant of a store and its last persisted checkpoint\<close>

text \<open>
  What every store reached from a fresh one of positive size satisfies: at most \<open>size\<close>
  checkpoints, under different paths, each with its file, none for a step not yet
  reached.
\<close>

definition store_inv :: "'st CheckpointStore \<Rightarrow> bool" where
  "store_inv s \<longleftrightarrow>
     0 < size_lim s \<and> int (length (chkpts s)) \<le> size_lim s \<and>
     distinct (map ck_path (chkpts s)) \<and>
     (\<forall>c \<in> set (chkpts s). files s (ck_path c) \<noteq> None \<and> ck_path c \<le> step s) \<and>
     (\<forall>p. step s < p \<longrightarrow> files s p = None)"

definition last_persisted :: "'st CheckpointStore \<Rightarrow> (int \<times> real) option" where
  "last_persisted s =
     (if chkpts s = [] then None
      else Some (ck_step (last (chkpts s)), ck_loss (last (chkpts s))))"

subsection \<open>Reading a run of train\<close>

text \<open>
  The test of line 132, \<^verbatim>\<open>jnp.isnan(train_state.sampler['psi'].log).any()\<close>, on a yielded
  item, and the \<^verbatim>\<open>update\<close> calls that a run of items without a NaN makes in mode
  \<^verbatim>\<open>'train'\<close>.
\<close>

definition calls_of :: "'p Yield list \<Rightarrow> (real \<times> 'p TrainState) list" where
  "calls_of ys = map (\<lambda>y. (y_E_loc_std y, y_train_state y)) ys"

definition has_nan :: "'p Yield \<Rightarrow> bool" where
  "has_nan y = list_ex isnan (sampler_psi_log (y_train_state y))"

text \<open>
  A generator for concrete runs: it yields one item per step of \<^verbatim>\<open>pbar\<close>, with loss 1
  and the count of steps done as payload; the amplitude is NaN at step \<open>n\<close> of a run
  started from the initial state (payload 0), and finite everywhere else, in particular
  in a run resumed from a checkpoint.
\<close>

definition nan_at :: "int \<Rightarrow> int list \<Rightarrow> nat TrainState \<Rightarrow> nat Yield list" where
  "nan_at n pbar ts =
     map (\<lambda>k. \<lparr>y_step = k,
               y_train_state =
                 \<lparr>sampler_psi_log = [if k = n \<and> payload ts = 0 then NaN else Fin 0],
                  payload = nat k + 1\<rparr>,
               y_E_loc_std = 1\<rparr>) pbar"

subsection \<open>Decorrelation in the words of the specification\<close>

text \<open>
  The specification: the wrapper ``performs \<open>length\<close> internal \<open>sample\<close> calls per
  externally visible step, discarding intermediate configurations and stats except the
  final one''. \<open>iterate_sample f keys st\<close> makes one call of the sampler \<open>f\<close> per key,
  each on the state the call before left, and lists what the calls returned; the
  externally visible result is the last of the list.
\<close>

fun iterate_sample ::
    "('k \<Rightarrow> state \<Rightarrow> error + (state \<times> PhysicalConfiguration \<times> stats)) \<Rightarrow> 'k list \<Rightarrow> state
      \<Rightarrow> error + (state \<times> PhysicalConfiguration \<times> stats) list" where
  "iterate_sample f [] st = Inr []"
| "iterate_sample f (k # ks) st =
     (case f k st of
        Inl e \<Rightarrow> Inl e
      | Inr (st', conf, stats) \<Rightarrow>
          (case iterate_sample f ks st' of
             Inl e \<Rightarrow> Inl e
           | Inr rs \<Rightarrow> Inr ((st', conf, stats) # rs)))"

subsection \<open>A sampler environment and a state for concrete runs\<close>

text \<open>
  Keys are numbers. Splitting gives \<open>n\<close> keys; the resampling always draws the last
  walker; the mover's kernel adds one to the age of every walker, so that the ages count
  the internal steps, and reports no statistics.
\<close>

definition count_env :: "nat env" where
  "count_env =
     \<lparr>e_split = (\<lambda>k n. map (\<lambda>i. k + i + 1) [0 ..< n]),
      e_multinomial = (\<lambda>k w. case w of Num x \<Rightarrow> [] | Arr ws \<Rightarrow> replicate (length ws) (length ws - 1)),
      e_kernel = (\<lambda>c a R k st.
         (case st ''age'' of
            Some (Leaf ages) \<Rightarrow> st(''age'' \<mapsto> Leaf (arr_map (\<lambda>x. x + 1) ages))
          | _ \<Rightarrow> st,
          Map.empty))\<rparr>"

text \<open>Two walkers of one electron each, with ages and weights, and one nucleus.\<close>

definition two_walkers :: state where
  "two_walkers =
     [''r'' \<mapsto> Leaf (Arr [Arr [Arr [Num 0, Num 0, Num 1]], Arr [Arr [Num 1, Num 2, Num 3]]]),
      ''psi'' \<mapsto> Psi (Arr [Num 1, Num 1]) (Arr [Num 0, Num (-1)]),
      ''age'' \<mapsto> Leaf (Arr [Num 0, Num 0]),
      ''tau'' \<mapsto> Leaf (Num 1),
      ''step'' \<mapsto> Leaf (Num 0),
      ''log_weight'' \<mapsto> Leaf (Arr [Num 0, Num (-1)])]"

definition one_nucleus :: arr where
  "one_nucleus = Arr [Arr [Num 0, Num 0, Num 0]]"

lemma drop_head_length: "length (drop_head c t) \<le> length t"
  by (simp add: drop_head_def)

lemma drop_head_shrinks:
  assumes "s \<in> set seqs" "s \<noteq> []"
  shows "sum_list (map length (map (drop_head (hd s)) seqs)) < sum_list (map length seqs)"
  using assms
proof (induction seqs)
  case Nil
  then show ?case by simp
next
  case (Cons t seqs)
  have le: "sum_list (map length (map (drop_head (hd s)) seqs)) \<le> sum_list (map length seqs)"
    by (induction seqs) (auto simp: drop_head_def)
  show ?case
  proof (cases "s = t")
    case True
    then have "length (drop_head (hd s) t) < length t"
      using Cons.prems(2) by (simp add: drop_head_def)
    then show ?thesis using le by simp
  next
    case False
    then have "s \<in> set seqs" using Cons.prems(1) by simp
    from Cons.IH[OF this Cons.prems(2)] drop_head_length[of "hd s" t]
    show ?thesis by simp
  qed
qed

termination c3_merge
proof (relation "measure (\<lambda>seqs. sum_list (map length seqs))")
  show "wf (measure (\<lambda>seqs. sum_list (map length seqs)))" by simp
next
  fix seqs :: "cls list list" and s
  assume "find (good_head seqs) seqs = Some s"
  then have "s \<in> set seqs" "good_head seqs s"
    by (auto simp: find_Some_iff)
  then have "s \<in> set seqs" "s \<noteq> []" by (auto simp: good_head_def)
  then show "(map (drop_head (hd s)) seqs, seqs) \<in> measure (\<lambda>seqs. sum_list (map length seqs))"
    using drop_head_shrinks by simp
qed

declare c3_merge.simps [simp del]

section \<open>Theorems: CheckpointStore\<close>


lemma evict_within:
  "int (length cs) \<le> sz \<Longrightarrow> evict sz cs fs = (cs, fs, None)"
  by (cases cs) auto

lemma evict_one:
  assumes "int (length (c # cs)) = sz + 1" "fs (ck_path c) \<noteq> None"
  shows "evict sz (c # cs) fs = (cs, fs(ck_path c := None), None)"
  using assms by (simp add: evict_within)

lemma update_no_persist:
  assumes "\<not> spec_gate (min_interval s) (threshold s) (step s + 1) (last_persisted s) loss"
  shows "CheckpointStore_update loss st s = (s\<lparr>step := step s + 1, buffer := Some st\<rparr>, None)"
  using assms
  by (auto simp: CheckpointStore_update_def Let_def spec_gate_def last_persisted_def
      split: if_splits)

lemma update_persist:
  assumes "spec_gate (min_interval s) (threshold s) (step s + 1) (last_persisted s) loss"
  shows "CheckpointStore_update loss st s =
     (case evict (size_lim s) (chkpts s @ [Checkpoint (step s + 1) loss (step s + 1)])
             ((files s)(step s + 1 \<mapsto> st)) of
        (cs, fs, err) \<Rightarrow> (s\<lparr>step := step s + 1, buffer := Some st, chkpts := cs, files := fs\<rparr>, err))"
  using assms
  by (auto simp: CheckpointStore_update_def CheckpointStore_dump_def Let_def spec_gate_def
      last_persisted_def split: if_splits prod.splits)

lemma evict_full:
  assumes "int (length (c # cs)) = sz" "fs (ck_path c) \<noteq> None"
  shows "evict sz ((c # cs) @ [n]) fs = (cs @ [n], fs(ck_path c := None), None)"
proof -
  have "evict sz (c # (cs @ [n])) fs = (cs @ [n], fs(ck_path c := None), None)"
    by (rule evict_one) (use assms in auto)
  then show ?thesis by simp
qed

lemma evict_room:
  assumes "int (length cs) < sz"
  shows "evict sz (cs @ [n]) fs = (cs @ [n], fs, None)"
  by (rule evict_within) (use assms in simp)

lemma update_inv_persist:
  assumes inv: "store_inv s"
    and g: "spec_gate (min_interval s) (threshold s) (step s + 1) (last_persisted s) loss"
  obtains s' where "CheckpointStore_update loss st s = (s', None)" "store_inv s'"
    "step s' = step s + 1" "buffer s' = Some st" "min_interval s' = min_interval s"
    "threshold s' = threshold s" "size_lim s' = size_lim s"
    "files s' (step s') = Some st" "chkpts s' \<noteq> []"
    "last (chkpts s') = Checkpoint (step s') loss (step s')"
proof -
  let ?n = "Checkpoint (step s + 1) loss (step s + 1)"
  let ?fs = "(files s)(step s + 1 \<mapsto> st)"
  from inv have sz: "0 < size_lim s" and len: "int (length (chkpts s)) \<le> size_lim s"
    and dist: "distinct (map ck_path (chkpts s))"
    and ex: "\<forall>c \<in> set (chkpts s). files s (ck_path c) \<noteq> None \<and> ck_path c \<le> step s"
    and fresh: "\<forall>p. step s < p \<longrightarrow> files s p = None"
    by (auto simp: store_inv_def)
  show thesis
  proof (cases "int (length (chkpts s)) = size_lim s")
    case True
    then obtain c cs' where cs: "chkpts s = c # cs'" using sz by (cases "chkpts s") auto
    let ?s' = "s\<lparr>step := step s + 1, buffer := Some st, chkpts := cs' @ [?n],
                 files := ?fs(ck_path c := None)\<rparr>"
    have cne: "ck_path c \<noteq> step s + 1" using ex cs by auto
    have "?fs (ck_path c) \<noteq> None" using ex cs by auto
    then have ev': "evict (size_lim s) (chkpts s @ [?n]) ?fs = (cs' @ [?n], ?fs(ck_path c := None), None)"
      unfolding cs by (rule evict_full[rotated]) (use True cs in simp)
    have u: "CheckpointStore_update loss st s = (?s', None)"
      unfolding update_persist[OF g, of st] ev' by simp
    have c_notin: "ck_path c \<notin> ck_path ` set cs'" using dist cs by auto
    have "store_inv ?s'"
      unfolding store_inv_def using sz True cs dist ex fresh cne c_notin
      by (auto simp: image_iff)
    then show ?thesis using u cne by (intro that[of ?s']) auto
  next
    case False
    let ?s' = "s\<lparr>step := step s + 1, buffer := Some st, chkpts := chkpts s @ [?n],
                 files := ?fs\<rparr>"
    have ev': "evict (size_lim s) (chkpts s @ [?n]) ?fs = (chkpts s @ [?n], ?fs, None)"
      by (rule evict_room) (use False len in simp)
    have u: "CheckpointStore_update loss st s = (?s', None)"
      unfolding update_persist[OF g, of st] ev' by simp
    have "store_inv ?s'"
      unfolding store_inv_def using sz len False dist ex fresh
      by (auto simp: image_iff)
    then show ?thesis using u by (intro that[of ?s']) auto
  qed
qed


lemma update_inv_no_persist:
  assumes "store_inv s"
  shows "store_inv (s\<lparr>step := step s + 1, buffer := Some st\<rparr>)"
  using assms unfolding store_inv_def by auto

lemma updates_follow_spec:
  assumes "store_inv s"
  shows "\<exists>s'. updates s cs = (s', None) \<and> store_inv s' \<and>
           min_interval s' = min_interval s \<and> threshold s' = threshold s \<and>
           (step s', last_persisted s') =
             spec_after (min_interval s) (threshold s) (step s) (last_persisted s) (map fst cs)"
  using assms
proof (induction cs arbitrary: s)
  case Nil
  then show ?case by simp
next
  case (Cons c cs)
  let ?g = "spec_gate (min_interval s) (threshold s) (step s + 1) (last_persisted s) (fst c)"
  show ?case
  proof (cases ?g)
    case True
    from update_inv_persist[OF Cons.prems True, of "snd c"]
    obtain s1 where s1: "CheckpointStore_update (fst c) (snd c) s = (s1, None)" "store_inv s1"
      "step s1 = step s + 1" "min_interval s1 = min_interval s" "threshold s1 = threshold s"
      "chkpts s1 \<noteq> []" "last (chkpts s1) = Checkpoint (step s1) (fst c) (step s1)"
      by blast
    have lp: "last_persisted s1 = Some (step s + 1, fst c)"
      using s1 by (simp add: last_persisted_def)
    from Cons.IH[OF s1(2)] obtain s' where
      "updates s1 cs = (s', None)" "store_inv s'" "min_interval s' = min_interval s1"
      "threshold s' = threshold s1"
      "(step s', last_persisted s') =
         spec_after (min_interval s1) (threshold s1) (step s1) (last_persisted s1) (map fst cs)"
      by blast
    then show ?thesis using s1 lp True by simp
  next
    case False
    let ?s1 = "s\<lparr>step := step s + 1, buffer := Some (snd c)\<rparr>"
    have u: "CheckpointStore_update (fst c) (snd c) s = (?s1, None)"
      by (rule update_no_persist[OF False])
    have inv1: "store_inv ?s1" by (rule update_inv_no_persist[OF Cons.prems])
    have lp: "last_persisted ?s1 = last_persisted s" by (simp add: last_persisted_def)
    from Cons.IH[OF inv1] obtain s' where
      "updates ?s1 cs = (s', None)" "store_inv s'" "min_interval s' = min_interval ?s1"
      "threshold s' = threshold ?s1"
      "(step s', last_persisted s') =
         spec_after (min_interval ?s1) (threshold ?s1) (step ?s1) (last_persisted ?s1) (map fst cs)"
      by blast
    then show ?thesis using u lp False by simp
  qed
qed


lemma store_inv_init: "0 < sz \<Longrightarrow> store_inv (CheckpointStore_init sz mi th)"
  by (simp add: store_inv_def CheckpointStore_init_def)




lemma update_sets_buffer:
  "buffer (fst (CheckpointStore_update loss st s)) = Some st"
  by (simp add: CheckpointStore_update_def CheckpointStore_dump_def Let_def split: prod.splits)

lemma updates_buffer:
  "cs \<noteq> [] \<Longrightarrow> updates s cs = (s', None) \<Longrightarrow> buffer s' = Some (snd (last cs))"
proof (induction cs arbitrary: s)
  case Nil
  then show ?case by simp
next
  case (Cons c cs)
  obtain s1 e where u: "CheckpointStore_update (fst c) (snd c) s = (s1, e)"
    by (cases "CheckpointStore_update (fst c) (snd c) s")
  with Cons.prems(2) have e: "e = None" and rest: "updates s1 cs = (s', None)"
    by (auto split: option.splits)
  show ?case
  proof (cases "cs = []")
    case True
    then have "s' = s1" using rest by simp
    moreover have "buffer s1 = Some (snd c)"
      using update_sets_buffer[of "fst c" "snd c" s] u by simp
    ultimately show ?thesis using True by simp
  next
    case False
    then show ?thesis using Cons.IH[OF False rest] by simp
  qed
qed

text \<open>
  Claim C9. After one or more \<^verbatim>\<open>update\<close> calls on any store, none of which raised,
  \<^verbatim>\<open>close()\<close> writes the state of the most recent call to the file of the current
  step, whatever the interval and threshold rule decided for the calls (the statement
  asks nothing of it), and leaves the list of checkpoints as it is.
\<close>

theorem close_persists_last_state:
  assumes "cs \<noteq> []" and "updates s cs = (s', None)"
  shows "files (CheckpointStore_close s') (step (CheckpointStore_close s')) = Some (snd (last cs))
         \<and> chkpts (CheckpointStore_close s') = chkpts s'"
  using updates_buffer[OF assms]
  by (simp add: CheckpointStore_close_def CheckpointStore_dump_def)

theorem close_persists_last_state_witness:
  "[(1, 10::nat), (2, 20)] \<noteq> [] \<and>
   updates (CheckpointStore_init 3 100 (95/100)) [(1, 10::nat), (2, 20)] =
     (\<lparr>size_lim = 3, min_interval = 100, threshold = 95/100, chkpts = [], step = 2,
       buffer = Some 20, files = (\<lambda>_. None)\<rparr>, None) \<and>
   files (CheckpointStore_close
     \<lparr>size_lim = 3, min_interval = 100, threshold = 95/100, chkpts = [], step = 2,
       buffer = Some (20::nat), files = (\<lambda>_. None)\<rparr>) 2 = Some 20"
proof -
  let ?cs = "[(1, 10::nat), (2, 20)] :: (real \<times> nat) list"
  let ?s' = "\<lparr>size_lim = 3, min_interval = 100, threshold = 95/100, chkpts = [], step = 2,
       buffer = Some (20::nat), files = (\<lambda>_. None)\<rparr>"
  have ne: "?cs \<noteq> []" by simp
  have u: "updates (CheckpointStore_init 3 100 (95/100)) ?cs = (?s', None)"
    by (simp add: CheckpointStore_update_def CheckpointStore_init_def Let_def)
  have st: "step (CheckpointStore_close ?s') = 2"
    by (simp add: CheckpointStore_close_def CheckpointStore_dump_def)
  from close_persists_last_state[OF ne u] st ne u show ?thesis by simp
qed

section \<open>Theorems: train\<close>

lemma updates_Cons_None:
  "updates s (c # cs) = (s', None) \<Longrightarrow>
     \<exists>s1. CheckpointStore_update (fst c) (snd c) s = (s1, None) \<and> updates s1 cs = (s', None)"
  by (cases "CheckpointStore_update (fst c) (snd c) s") (auto split: option.splits)

lemma train_body_good_train:
  assumes "\<not> has_nan y" "l_chkpts L = Some store"
    "CheckpointStore_update (y_E_loc_std y) (y_train_state y) store = (store', None)"
  shows "train_body True True steps y L =
           (L\<lparr>l_train_state := y_train_state y, l_chkpts := Some store'\<rparr>, Normal)"
  using assms by (simp add: train_body_def has_nan_def Let_def)

lemma train_body_good_idle:
  assumes "\<not> has_nan y" "\<not> (workdir \<and> mode_train)"
  shows "train_body workdir mode_train steps y L = (L\<lparr>l_train_state := y_train_state y\<rparr>, Normal)"
  using assms by (auto simp add: train_body_def has_nan_def Let_def)

lemma train_body_nan_empty:
  assumes "has_nan y" "l_chkpts L = Some store" "chkpts store = []"
  shows "snd (train_body workdir mode_train steps y L) = Raise IndexError"
  using assms by (simp add: train_body_def has_nan_def Let_def CheckpointStore_last_def)

lemma train_body_nan_unbound:
  assumes "has_nan y" "l_chkpts L = None"
  shows "snd (train_body workdir mode_train steps y L) = Raise UnboundLocalError"
  using assms by (simp add: train_body_def has_nan_def Let_def)

lemma fit_loop_good_train:
  assumes "\<forall>y \<in> set good. \<not> has_nan y" "l_chkpts L = Some store"
    "updates store (calls_of good) = (store', None)"
  shows "\<exists>ts. fit_loop True True steps (good @ rest) L =
           fit_loop True True steps rest (L\<lparr>l_train_state := ts, l_chkpts := Some store'\<rparr>)"
  using assms
proof (induction good arbitrary: L store)
  case Nil
  then have "L\<lparr>l_train_state := l_train_state L, l_chkpts := Some store'\<rparr> = L"
    by (simp add: calls_of_def)
  then show ?case by (metis append_Nil)
next
  case (Cons y good)
  from Cons.prems(3) obtain s1 where
    s1: "CheckpointStore_update (y_E_loc_std y) (y_train_state y) store = (s1, None)"
    and rest: "updates s1 (calls_of good) = (store', None)"
    using updates_Cons_None[of store "(y_E_loc_std y, y_train_state y)" "calls_of good" store']
    by (auto simp: calls_of_def)
  let ?L1 = "L\<lparr>l_train_state := y_train_state y, l_chkpts := Some s1\<rparr>"
  have b: "train_body True True steps y L = (?L1, Normal)"
    by (rule train_body_good_train) (use Cons.prems s1 in auto)
  from Cons.IH[of ?L1 s1] Cons.prems(1) rest obtain ts where
    "fit_loop True True steps (good @ rest) ?L1 =
       fit_loop True True steps rest (?L1\<lparr>l_train_state := ts, l_chkpts := Some store'\<rparr>)"
    by auto
  then show ?case using b by auto
qed

lemma fit_loop_good_idle:
  assumes "\<forall>y \<in> set good. \<not> has_nan y" "\<not> (workdir \<and> mode_train)"
  shows "\<exists>ts. fit_loop workdir mode_train steps (good @ rest) L =
           fit_loop workdir mode_train steps rest (L\<lparr>l_train_state := ts\<rparr>)"
  using assms
proof (induction good arbitrary: L)
  case Nil
  have "L\<lparr>l_train_state := l_train_state L\<rparr> = L" by simp
  then show ?case by (metis append_Nil)
next
  case (Cons y good)
  let ?L1 = "L\<lparr>l_train_state := y_train_state y\<rparr>"
  have b: "train_body workdir mode_train steps y L = (?L1, Normal)"
    by (rule train_body_good_idle) (use Cons.prems in auto)
  from Cons.IH[of ?L1] Cons.prems obtain ts where
    "fit_loop workdir mode_train steps (good @ rest) ?L1 =
       fit_loop workdir mode_train steps rest (?L1\<lparr>l_train_state := ts\<rparr>)"
    by auto
  then show ?case using b by auto
qed

lemma fit_loop_raise:
  assumes "snd (train_body workdir mode_train steps y L) = Raise e"
  shows "snd (fit_loop workdir mode_train steps (y # ys) L) = Raise e"
  using assms by (cases "train_body workdir mode_train steps y L") auto

lemma split_at_first_nan:
  assumes "i < length ys"
  shows "ys = take i ys @ (ys ! i) # drop (Suc i) ys"
  using assms by (simp add: id_take_nth_drop)


lemma restart_loop_raise:
  assumes "snd (fit_loop workdir mode_train steps (fit_wf (l_pbar L) (l_train_state L)) L) = Raise e"
  shows "snd (restart_loop workdir mode_train steps fit_wf (a # as) L) = Raises e"
  using assms
  by (cases "fit_loop workdir mode_train steps (fit_wf (l_pbar L) (l_train_state L)) L") auto

lemma train_result:
  assumes "0 < max_restarts"
    and "snd (fit_loop workdir mode_train steps (fit_wf [0 .. steps - 1] init_state)
           \<lparr>l_chkpts = (if workdir then Some (CheckpointStore_init 3 100 0.95) else None),
            l_pbar = [0 .. steps - 1], l_train_state = init_state\<rparr>) = Raise e"
  shows "fst (train workdir mode_train steps max_restarts init_state fit_wf) = Raises e"
proof -
  from assms(1) obtain as where as: "[0 ..< nat max_restarts] = 0 # as"
    by (cases "[0 ..< nat max_restarts]") (auto simp: upt_eq_Cons_conv)
  let ?L0 = "\<lparr>l_chkpts = (if workdir then Some (CheckpointStore_init 3 100 0.95) else None),
            l_pbar = [0 .. steps - 1], l_train_state = init_state\<rparr>"
  have "snd (restart_loop workdir mode_train steps fit_wf (0 # as) ?L0) = Raises e"
    by (rule restart_loop_raise) (use assms(2) in simp)
  then show ?thesis
    unfolding train_def Let_def as by (simp add: split_beta)
qed

text \<open>
  Claim C10. Let \<^verbatim>\<open>train\<close> run at least one attempt, and let item \<open>i\<close> be the first
  that \<^verbatim>\<open>fit_wf\<close> yields with a NaN in the log-amplitude. Without \<^verbatim>\<open>workdir\<close> the
  recovery branch reads the unbound name \<^verbatim>\<open>chkpts\<close> and the call raises
  \<open>UnboundLocalError\<close>. With \<^verbatim>\<open>workdir\<close>, when the store holds no checkpoint at
  that moment (in evaluation mode the store is never updated; in training mode the
  updates for the items before \<open>i\<close> persisted nothing), \<^verbatim>\<open>chkpts.last\<close> raises
  \<open>IndexError\<close>. In both cases the exception leaves \<^verbatim>\<open>train\<close>: nothing is rolled
  back.
\<close>

theorem nan_without_checkpoint_raises:
  assumes "0 < max_restarts"
    and "ys = fit_wf [0 .. steps - 1] init_state"
    and "i < length ys" and "has_nan (ys ! i)" and "\<forall>j<i. \<not> has_nan (ys ! j)"
  shows "(\<not> workdir \<longrightarrow>
            fst (train workdir mode_train steps max_restarts init_state fit_wf)
              = Raises UnboundLocalError) \<and>
         (workdir \<and> (mode_train \<longrightarrow>
              chkpts (fst (updates (CheckpointStore_init 3 100 0.95 :: 'a TrainState CheckpointStore)
                         (calls_of (take i ys)))) = []) \<longrightarrow>
            fst (train workdir mode_train steps max_restarts init_state fit_wf)
              = Raises IndexError)"
proof -
  let ?s0 = "CheckpointStore_init 3 100 0.95 :: 'a TrainState CheckpointStore"
  let ?L0 = "\<lparr>l_chkpts = (if workdir then Some ?s0 else None),
            l_pbar = [0 .. steps - 1], l_train_state = init_state\<rparr>"
  let ?good = "take i ys" and ?rest = "drop (Suc i) ys"
  have ys: "ys = ?good @ (ys ! i) # ?rest"
    by (rule split_at_first_nan[OF assms(3)])
  have good: "\<forall>y \<in> set ?good. \<not> has_nan y"
    using assms(3,5) by (auto simp: in_set_conv_nth)
  have fit: "fit_loop workdir mode_train steps (fit_wf [0 .. steps - 1] init_state) ?L0
           = fit_loop workdir mode_train steps (?good @ (ys ! i) # ?rest) ?L0"
    using ys assms(2) by simp
  have unbound: "fst (train workdir mode_train steps max_restarts init_state fit_wf)
              = Raises UnboundLocalError" if "\<not> workdir"
  proof -
    from fit_loop_good_idle[OF good, of workdir mode_train steps "(ys ! i) # ?rest" ?L0] that
    obtain ts where ts: "fit_loop workdir mode_train steps (?good @ (ys ! i) # ?rest) ?L0 =
        fit_loop workdir mode_train steps ((ys ! i) # ?rest) (?L0\<lparr>l_train_state := ts\<rparr>)"
      by auto
    have "snd (fit_loop workdir mode_train steps ((ys ! i) # ?rest) (?L0\<lparr>l_train_state := ts\<rparr>))
          = Raise UnboundLocalError"
      by (rule fit_loop_raise, rule train_body_nan_unbound[OF assms(4)]) (use that in simp)
    then have "snd (fit_loop workdir mode_train steps (fit_wf [0 .. steps - 1] init_state) ?L0)
          = Raise UnboundLocalError"
      unfolding fit ts .
    then show ?thesis by (rule train_result[OF assms(1)])
  qed
  have index_eval: "fst (train workdir mode_train steps max_restarts init_state fit_wf)
              = Raises IndexError" if "workdir" "\<not> mode_train"
  proof -
    from fit_loop_good_idle[OF good, of workdir mode_train steps "(ys ! i) # ?rest" ?L0] that
    obtain ts where ts: "fit_loop workdir mode_train steps (?good @ (ys ! i) # ?rest) ?L0 =
        fit_loop workdir mode_train steps ((ys ! i) # ?rest) (?L0\<lparr>l_train_state := ts\<rparr>)"
      by auto
    have "snd (fit_loop workdir mode_train steps ((ys ! i) # ?rest) (?L0\<lparr>l_train_state := ts\<rparr>))
          = Raise IndexError"
      by (rule fit_loop_raise, rule train_body_nan_empty[OF assms(4), of _ ?s0])
        (use that in \<open>simp_all add: CheckpointStore_init_def\<close>)
    then have "snd (fit_loop workdir mode_train steps (fit_wf [0 .. steps - 1] init_state) ?L0)
          = Raise IndexError"
      unfolding fit ts .
    then show ?thesis by (rule train_result[OF assms(1)])
  qed
  have index_train: "fst (train workdir mode_train steps max_restarts init_state fit_wf)
              = Raises IndexError"
    if "workdir" "mode_train" "chkpts (fst (updates ?s0 (calls_of ?good))) = []"
  proof -
    have "store_inv ?s0" by (rule store_inv_init) simp
    from updates_follow_spec[OF this, of "calls_of ?good"] obtain s' where
      s': "updates ?s0 (calls_of ?good) = (s', None)" by blast
    with that(3) have empty: "chkpts s' = []" by simp
    from fit_loop_good_train[OF good _ s', of ?L0 steps "(ys ! i) # ?rest"] that(1)
    obtain ts where ts: "fit_loop True True steps (?good @ (ys ! i) # ?rest) ?L0 =
        fit_loop True True steps ((ys ! i) # ?rest) (?L0\<lparr>l_train_state := ts, l_chkpts := Some s'\<rparr>)"
      by auto
    have "snd (fit_loop True True steps ((ys ! i) # ?rest) (?L0\<lparr>l_train_state := ts, l_chkpts := Some s'\<rparr>))
          = Raise IndexError"
      by (rule fit_loop_raise, rule train_body_nan_empty[OF assms(4), of _ s']) (use empty in simp_all)
    then have "snd (fit_loop True True steps (?good @ (ys ! i) # ?rest) ?L0) = Raise IndexError"
      unfolding ts .
    then have "snd (fit_loop workdir mode_train steps (fit_wf [0 .. steps - 1] init_state) ?L0)
          = Raise IndexError"
      unfolding fit using that(1,2) by simp
    then show ?thesis by (rule train_result[OF assms(1)])
  qed
  show ?thesis using unbound index_eval index_train by blast
qed


theorem nan_without_checkpoint_raises_witness:
  "has_nan (nan_at 1 [0 .. 3 - 1] \<lparr>sampler_psi_log = [Fin 0], payload = 0\<rparr> ! 1) \<and>
   \<not> has_nan (nan_at 1 [0 .. 3 - 1] \<lparr>sampler_psi_log = [Fin 0], payload = 0\<rparr> ! 0) \<and>
   fst (train False True 3 3 \<lparr>sampler_psi_log = [Fin 0], payload = 0\<rparr> (nan_at 1))
     = Raises UnboundLocalError \<and>
   fst (train True True 3 3 \<lparr>sampler_psi_log = [Fin 0], payload = 0\<rparr> (nan_at 1))
     = Raises IndexError"
proof -
  let ?init = "\<lparr>sampler_psi_log = [Fin 0], payload = 0::nat\<rparr>"
  let ?ys = "nan_at 1 [0 .. 3 - 1] ?init"
  have h1: "(0::int) < 3" by simp
  have h3: "1 < length ?ys" by code_simp
  have h4: "has_nan (?ys ! 1)" by code_simp
  have h0: "\<not> has_nan (?ys ! 0)" by code_simp
  then have h5: "\<forall>j<1. \<not> has_nan (?ys ! j)" by simp
  have e: "chkpts (fst (updates (CheckpointStore_init 3 100 0.95 :: nat TrainState CheckpointStore)
                         (calls_of (take 1 ?ys)))) = []"
    by code_simp
  note t = nan_without_checkpoint_raises[where fit_wf="nan_at 1" and steps=3 and init_state="?init"
      and ys="?ys" and i=1 and max_restarts=3, OF h1 refl h3 h4 h5]
  from t[of False True]
  have a: "fst (train False True 3 3 ?init (nan_at 1)) = Raises UnboundLocalError" by simp
  from t[of True True] e
  have b: "fst (train True True 3 3 ?init (nan_at 1)) = Raises IndexError" by simp
  from h4 h0 a b show ?thesis by blast
qed

text \<open>
  Claim C1, at a concrete run. One attempt is allowed (\<^verbatim>\<open>max_restarts=1\<close>); the store
  persists a checkpoint at its step 100 and the item of step 100 has a NaN amplitude, so
  the only attempt ends in a detected NaN. \<^verbatim>\<open>train\<close> raises nothing: it returns the
  state of the checkpoint.
\<close>

theorem train_returns_after_nan_without_error:
  "fst (train True True 102 1 \<lparr>sampler_psi_log = [Fin 0], payload = 0\<rparr> (nan_at 100))
     = Returns (Some \<lparr>sampler_psi_log = [Fin 0], payload = 100\<rparr>)"
  by code_simp

text \<open>
  Claim C2, at a concrete run. Three attempts are allowed and 103 steps asked for. The
  item of step 100 has a NaN amplitude; the last checkpoint records step 100 and the
  state after 100 steps; a run resumed from it would yield the steps 100, 101, 102.
  \<^verbatim>\<open>train\<close> returns the reloaded state as it is, after 100 steps: no step follows the
  reload.
\<close>

theorem train_returns_checkpoint_without_next_step:
  "has_nan (nan_at 100 [0 .. 103 - 1] \<lparr>sampler_psi_log = [Fin 0], payload = 0\<rparr> ! 100) \<and>
   map_option (CheckpointStore_last)
     (snd (train True True 103 3 \<lparr>sampler_psi_log = [Fin 0], payload = 0\<rparr> (nan_at 100)))
     = Some (Inr (100, \<lparr>sampler_psi_log = [Fin 0], payload = 100\<rparr>)) \<and>
   map y_step (nan_at 100 [100 .. 103 - 1] \<lparr>sampler_psi_log = [Fin 0], payload = 100\<rparr>)
     = [100, 101, 102] \<and>
   fst (train True True 103 3 \<lparr>sampler_psi_log = [Fin 0], payload = 0\<rparr> (nan_at 100))
     = Returns (Some \<lparr>sampler_psi_log = [Fin 0], payload = 100\<rparr>)"
  by code_simp

text \<open>
  The same in general: the attempts after the first are never run, the generator is
  called once, with the full step range and the initial state, and nothing in
  \<^verbatim>\<open>train\<close> raises \<open>NaNError\<close>.
\<close>

lemma restart_loop_single_attempt:
  "restart_loop workdir mode_train steps fit_wf (a # as) L =
   restart_loop workdir mode_train steps fit_wf [a] L"
  by simp

lemma train_never_restarts:
  assumes "0 < max_restarts"
  shows "train workdir mode_train steps max_restarts init_state fit_wf =
         train workdir mode_train steps 1 init_state fit_wf"
proof -
  from assms obtain as where as: "[0 ..< nat max_restarts] = 0 # as"
    by (cases "[0 ..< nat max_restarts]") (auto simp: upt_eq_Cons_conv)
  show ?thesis unfolding train_def as by simp
qed

lemma train_calls_fit_wf_once:
  assumes "fit_wf [0 .. steps - 1] init_state = fit_wf' [0 .. steps - 1] init_state"
  shows "train workdir mode_train steps max_restarts init_state fit_wf =
         train workdir mode_train steps max_restarts init_state fit_wf'"
proof (cases "[0 ..< nat max_restarts]")
  case Nil
  then show ?thesis unfolding train_def by simp
next
  case (Cons a as)
  then show ?thesis unfolding train_def using assms by simp
qed

lemma evict_no_NaNError: "evict sz cs fs = (cs', fs', e) \<Longrightarrow> e \<noteq> Some NaNError"
  by (induction cs arbitrary: fs) (auto split: if_splits)

lemma update_no_NaNError:
  "CheckpointStore_update loss st s = (s', e) \<Longrightarrow> e \<noteq> Some NaNError"
  by (auto simp: CheckpointStore_update_def CheckpointStore_dump_def Let_def
      simp del: evict.simps split: prod.splits if_splits dest: evict_no_NaNError)

lemma train_body_no_NaNError:
  "snd (train_body workdir mode_train steps y L) \<noteq> Raise NaNError"
  by (auto simp: train_body_def Let_def CheckpointStore_last_def
      split: option.splits sum.splits list.splits prod.splits dest: update_no_NaNError)

lemma fit_loop_no_NaNError:
  "snd (fit_loop workdir mode_train steps ys L) \<noteq> Raise NaNError"
proof (induction ys arbitrary: L)
  case Nil
  show ?case by simp
next
  case (Cons y ys)
  obtain L' f where b: "train_body workdir mode_train steps y L = (L', f)"
    by (cases "train_body workdir mode_train steps y L")
  then have "f \<noteq> Raise NaNError"
    using train_body_no_NaNError[of workdir mode_train steps y L] by simp
  then show ?case using b Cons.IH[of L'] by (cases f) auto
qed

lemma train_never_raises_NaNError:
  "fst (train workdir mode_train steps max_restarts init_state fit_wf) \<noteq> Raises NaNError"
proof (cases "[0 ..< nat max_restarts]")
  case Nil
  then show ?thesis unfolding train_def by simp
next
  case (Cons a as)
  let ?L0 = "\<lparr>l_chkpts = (if workdir then Some (CheckpointStore_init 3 100 0.95) else None),
            l_pbar = [0 .. steps - 1], l_train_state = init_state\<rparr>"
  obtain L' f where b: "fit_loop workdir mode_train steps (fit_wf [0 .. steps - 1] init_state) ?L0 = (L', f)"
    by (cases "fit_loop workdir mode_train steps (fit_wf [0 .. steps - 1] init_state) ?L0")
  then have "f \<noteq> Raise NaNError"
    using fit_loop_no_NaNError[of workdir mode_train steps "fit_wf [0 .. steps - 1] init_state" ?L0]
    by simp
  then show ?thesis unfolding train_def Cons using b by (cases f) auto
qed

section \<open>Theorems: MoleculeIdxSampler\<close>

lemma sample_value_length:
  assumes "MoleculeIdxSampler_sample split2 rperm self = Inr (v, self')"
  shows "length v = batch_size self"
  using assms
  by (auto simp: MoleculeIdxSampler_sample_def Let_def gather_clamped_def new_permutation_def
      split: if_splits prod.splits)

lemma gather_upt:
  assumes "\<forall>i \<in> set idx. i < n"
  shows "gather_clamped [0 ..< n] idx = idx"
  using assms by (induction idx) (auto simp: gather_clamped_def min_def)

lemma cyclic_block:
  assumes "s < n" "b \<le> n"
  shows "[s ..< min (s + b) n] @ [0 ..< b - (min (s + b) n - s)] = map (\<lambda>j. (s + j) mod n) [0 ..< b]"
proof (rule nth_equalityI)
  show "length ([s ..< min (s + b) n] @ [0 ..< b - (min (s + b) n - s)]) = length (map (\<lambda>j. (s + j) mod n) [0 ..< b])"
    using assms by auto
next
  fix i assume "i < length ([s ..< min (s + b) n] @ [0 ..< b - (min (s + b) n - s)])"
  then have i: "i < b" using assms by auto
  show "([s ..< min (s + b) n] @ [0 ..< b - (min (s + b) n - s)]) ! i = map (\<lambda>j. (s + j) mod n) [0 ..< b] ! i"
  proof (cases "s + i < n")
    case True
    then have "i < length [s ..< min (s + b) n]" using i by auto
    then show ?thesis using True i by (simp add: nth_append)
  next
    case False
    then have ge: "\<not> i < length [s ..< min (s + b) n]" by auto
    have "(s + i) mod n = s + i - n"
      using False assms i by (simp add: mod_if)
    then show ?thesis using ge False i assms by (auto simp add: nth_append min_def)
  qed
qed

lemma sample_no_shuffle:
  assumes "shuffle_m self = NoShuffle" "permutation_m self = [0 ..< n_mols self]"
    "state_m self < n_mols self" "batch_size self \<le> n_mols self"
  shows "MoleculeIdxSampler_sample split2 rperm self =
           Inr (map (\<lambda>j. (state_m self + j) mod n_mols self) [0 ..< batch_size self],
                self\<lparr>state_m := (state_m self + batch_size self) mod n_mols self\<rparr>)"
proof -
  let ?s = "state_m self" and ?b = "batch_size self" and ?n = "n_mols self"
  let ?idx = "[?s ..< min (?s + ?b) ?n]"
  have np: "new_permutation split2 rperm self = ([0 ..< ?n], self)"
    using assms(1) by (simp add: new_permutation_def)
  have self_eq: "self\<lparr>permutation_m := [0 ..< ?n]\<rparr> = self" using assms(2) by simp
  have g1: "gather_clamped [0 ..< ?n] ?idx = ?idx" by (rule gather_upt) auto
  have g2: "gather_clamped [0 ..< ?n] [0 ..< ?b - length ?idx] = [0 ..< ?b - length ?idx]"
    by (rule gather_upt) (use assms in auto)
  have blk: "?idx @ [0 ..< ?b - (min (?s + ?b) ?n - ?s)] = map (\<lambda>j. (?s + j) mod ?n) [0 ..< ?b]"
    by (rule cyclic_block) (use assms in auto)
  have n0: "?n \<noteq> 0" using assms(3) by auto
  show ?thesis
  proof (cases "length ?idx < ?b")
    case True
    have ge: "gather_clamped xs [] = []" for xs :: "nat list" by (simp add: gather_clamped_def)
    show ?thesis
      unfolding MoleculeIdxSampler_sample_def Let_def np
      using True n0 assms(2) g1 g2 blk self_eq by (simp add: ge)
  next
    case False
    then have "min (?s + ?b) ?n - ?s = ?b" by auto
    then have "?idx = map (\<lambda>j. (?s + j) mod ?n) [0 ..< ?b]" using blk by simp
    then show ?thesis
      unfolding MoleculeIdxSampler_sample_def Let_def
      using n0 assms(2) g1 False by simp
  qed
qed

lemma sample_calls_no_shuffle:
  assumes "shuffle_m self = NoShuffle" "permutation_m self = [0 ..< n_mols self]"
    "state_m self < n_mols self" "batch_size self \<le> n_mols self"
  shows "sample_calls split2 rperm m self =
           Inr (map (\<lambda>c. map (\<lambda>j. (state_m self + c * batch_size self + j) mod n_mols self)
                           [0 ..< batch_size self]) [0 ..< m],
                self\<lparr>state_m := (state_m self + m * batch_size self) mod n_mols self\<rparr>)"
  using assms
proof (induction m arbitrary: self)
  case 0
  then show ?case by simp
next
  case (Suc m)
  let ?s = "state_m self" and ?b = "batch_size self" and ?n = "n_mols self"
  let ?self' = "self\<lparr>state_m := (?s + ?b) mod ?n\<rparr>"
  have one: "MoleculeIdxSampler_sample split2 rperm self =
      Inr (map (\<lambda>j. (?s + j) mod ?n) [0 ..< ?b], ?self')"
    by (rule sample_no_shuffle) (use Suc.prems in auto)
  have n0: "0 < ?n" using Suc.prems by auto
  have rest: "sample_calls split2 rperm m ?self' =
      Inr (map (\<lambda>c. map (\<lambda>j. (state_m ?self' + c * batch_size ?self' + j) mod n_mols ?self')
                           [0 ..< batch_size ?self']) [0 ..< m],
           ?self'\<lparr>state_m := (state_m ?self' + m * batch_size ?self') mod n_mols ?self'\<rparr>)"
    by (rule Suc.IH) (use Suc.prems n0 in auto)
  have e1: "((?s + ?b) mod ?n + c * ?b + j) mod ?n = (?s + Suc c * ?b + j) mod ?n" for c j
  proof -
    have "((?s + ?b) mod ?n + c * ?b + j) mod ?n = ((?s + ?b) mod ?n + (c * ?b + j)) mod ?n"
      by (simp add: add.assoc)
    also have "\<dots> = ((?s + ?b) + (c * ?b + j)) mod ?n" by (rule mod_add_left_eq)
    also have "\<dots> = (?s + Suc c * ?b + j) mod ?n" by (simp add: algebra_simps)
    finally show ?thesis .
  qed
  have e2: "((?s + ?b) mod ?n + m * ?b) mod ?n = (?s + Suc m * ?b) mod ?n"
  proof -
    have "((?s + ?b) mod ?n + m * ?b) mod ?n = ((?s + ?b) + m * ?b) mod ?n"
      by (rule mod_add_left_eq)
    also have "\<dots> = (?s + Suc m * ?b) mod ?n" by (simp add: algebra_simps)
    finally show ?thesis .
  qed
  have shift: "map (\<lambda>c. map (\<lambda>j. (?s + c * ?b + j) mod ?n) [0 ..< ?b]) [0 ..< Suc m] =
     map (\<lambda>j. (?s + j) mod ?n) [0 ..< ?b] #
     map (\<lambda>c. map (\<lambda>j. (?s + Suc c * ?b + j) mod ?n) [0 ..< ?b]) [0 ..< m]"
    by (simp add: upt_conv_Cons map_Suc_upt[symmetric] del: upt_Suc)
  have rest': "sample_calls split2 rperm m ?self' =
      Inr (map (\<lambda>c. map (\<lambda>j. (?s + Suc c * ?b + j) mod ?n) [0 ..< ?b]) [0 ..< m],
           self\<lparr>state_m := (?s + Suc m * ?b) mod ?n\<rparr>)"
    unfolding rest by (simp add: e1 e2 del: mult_Suc)
  show ?case
    unfolding shift by (simp add: one rest' del: upt_Suc mult_Suc)
qed


lemma concat_blocks:
  "concat (map (\<lambda>c. map (\<lambda>j. f (c * b + j)) [0 ..< b]) [0 ..< m]) = map f [0 ..< m * b]"
proof (induction m)
  case 0
  show ?case by simp
next
  case (Suc m)
  have a: "[0 ..< Suc m * b] = [0 ..< m * b] @ [m * b ..< m * b + b]"
    using upt_add_eq_append[of 0 "m * b" b] by (simp add: add.commute)
  have "map (\<lambda>j. j + m * b) [0 ..< b] = [m * b ..< b + m * b]" by (rule map_add_upt)
  then have "[m * b ..< m * b + b] = map (\<lambda>j. m * b + j) [0 ..< b]"
    by (simp add: add.commute)
  then have b: "map f [m * b ..< m * b + b] = map (\<lambda>j. f (m * b + j)) [0 ..< b]"
    by (simp add: comp_def)
  show ?case unfolding a using Suc b by simp
qed


lemma shift_back:
  fixes s n x :: nat
  assumes "x < n"
  shows "((s + x) mod n + (n - s mod n)) mod n = x"
proof -
  have n: "0 < n" using assms by simp
  have m: "s mod n \<le> n" using n by (simp add: less_imp_le)
  have "s = n * (s div n) + s mod n" by simp
  then have "s + (n - s mod n) = n * (s div n) + n" using m by arith
  then have z: "(s + (n - s mod n)) mod n = 0" by simp
  have "((s + x) mod n + (n - s mod n)) mod n = ((s + x) + (n - s mod n)) mod n"
    by (rule mod_add_left_eq)
  also have "(s + x) + (n - s mod n) = (s + (n - s mod n)) + x" by simp
  also have "((s + (n - s mod n)) + x) mod n = ((s + (n - s mod n)) mod n + x) mod n"
    by (rule mod_add_left_eq[symmetric])
  also have "\<dots> = x" using z assms by simp
  finally show ?thesis .
qed

lemma residues_inj: "inj_on (\<lambda>t. (s + t) mod n) {0 ..< n :: nat}"
proof (rule inj_on_inverseI[where g = "\<lambda>i. (i + (n - s mod n)) mod n"])
  fix x assume "x \<in> {0 ..< n}"
  then have "x < n" by simp
  then show "((s + x) mod n + (n - s mod n)) mod n = x" by (rule shift_back)
qed

lemma shift_forth:
  fixes s n i :: nat
  assumes "i < n"
  shows "(s + (i + (n - s mod n)) mod n) mod n = i"
proof -
  have n: "0 < n" using assms by simp
  have m: "s mod n \<le> n" using n by (simp add: less_imp_le)
  have "(s + (i + (n - s mod n)) mod n) mod n = (s + (i + (n - s mod n))) mod n"
    by (rule mod_add_right_eq)
  also have "\<dots> = (s mod n + (i + (n - s mod n))) mod n"
    by (rule mod_add_left_eq[symmetric])
  also have "s mod n + (i + (n - s mod n)) = i + n" using m by arith
  also have "(i + n) mod n = i" using assms by simp
  finally show ?thesis .
qed


lemma residues_cover:
  assumes "0 < n" "n \<le> L"
  shows "set (map (\<lambda>t. (s + t) mod n) [0 ..< L]) = {0 ..< n}"
proof
  show "set (map (\<lambda>t. (s + t) mod n) [0 ..< L]) \<subseteq> {0 ..< n}"
    using assms by auto
next
  show "{0 ..< n} \<subseteq> set (map (\<lambda>t. (s + t) mod n) [0 ..< L])"
  proof
    fix i assume "i \<in> {0 ..< n}"
    then have i: "i < n" by simp
    let ?t = "(i + (n - s mod n)) mod n"
    have "?t < n" using assms(1) by simp
    from this assms(2) have t: "?t < L" by (rule less_le_trans)
    have "(s + ?t) mod n = i" by (rule shift_forth[OF i])
    then have "i = (\<lambda>t. (s + t) mod n) ?t" by simp
    moreover have "?t \<in> set [0 ..< L]" using t by simp
    ultimately show "i \<in> set (map (\<lambda>t. (s + t) mod n) [0 ..< L])"
      unfolding set_map by (rule image_eqI)
  qed
qed

lemma count_upt: "t < n \<Longrightarrow> count_list [0 ..< n] t = 1"
  by (induction n) (auto simp: less_Suc_eq)

lemma residues_once:
  assumes "i < n"
  shows "count_list (map (\<lambda>t. (s + t) mod n) [0 ..< n]) i = 1"
proof -
  have "i \<in> set (map (\<lambda>t. (s + t) mod n) [0 ..< n])"
    using residues_cover[of n n s] assms by simp
  then obtain t where t: "t < n" "(s + t) mod n = i" by auto
  have "count_list (map (\<lambda>t. (s + t) mod n) [0 ..< n]) ((s + t) mod n) = count_list [0 ..< n] t"
    by (rule count_list_inj_map) (use t residues_inj[of s n] in auto)
  then show ?thesis using t count_upt by simp
qed

lemma init_no_shuffle:
  "MoleculeIdxSampler_init split2 rperm key n b NoShuffle =
     \<lparr>rng_m = key, n_mols = n, batch_size = b, state_m = 0, shuffle_m = NoShuffle,
      permutation_m = [0 ..< n]\<rparr>"
  by (simp add: MoleculeIdxSampler_init_def new_permutation_def)

lemma ceil_div_covers:
  fixes n b :: nat
  assumes "0 < b"
  shows "n \<le> ((n + b - 1) div b) * b" and "b dvd n \<Longrightarrow> ((n + b - 1) div b) * b = n"
proof -
  define c where "c = (n + b - 1) div b"
  have "n + b - 1 = c * b + (n + b - 1) mod b" unfolding c_def by simp
  moreover have "(n + b - 1) mod b < b" using assms by simp
  ultimately have lo: "n \<le> c * b" by linarith
  then show "n \<le> ((n + b - 1) div b) * b" unfolding c_def .
  assume "b dvd n"
  then obtain q where "n = b * q" by (rule dvdE)
  then have q: "n = q * b" by (simp add: mult.commute)
  have "c * b \<le> n + b - 1" unfolding c_def by simp
  then have "c * b < q * b + b" using q assms by linarith
  then have "c * b < (q + 1) * b" by (simp add: algebra_simps)
  then have "c < q + 1" by (simp only: mult_less_cancel2)
  moreover have "q \<le> c" using lo q assms by simp
  ultimately have "c = q" by simp
  then show "((n + b - 1) div b) * b = n" unfolding c_def q by simp
qed


lemma sample_any_batch:
  assumes "shuffle_m self = NoShuffle" "permutation_m self = [0 ..< n_mols self]"
    "state_m self < n_mols self"
  shows "\<exists>v. MoleculeIdxSampler_sample split2 rperm self =
              Inr (v, self\<lparr>state_m := (state_m self + batch_size self) mod n_mols self\<rparr>) \<and>
             length v = batch_size self \<and>
             (n_mols self < batch_size self \<longrightarrow> set v = {0 ..< n_mols self})"
proof -
  let ?s = "state_m self" and ?b = "batch_size self" and ?n = "n_mols self"
  let ?idx = "[?s ..< min (?s + ?b) ?n]"
  have np: "new_permutation split2 rperm self = ([0 ..< ?n], self)"
    using assms(1) by (simp add: new_permutation_def)
  have self_eq: "self\<lparr>permutation_m := [0 ..< ?n]\<rparr> = self" using assms(2) by simp
  have g1: "gather_clamped [0 ..< ?n] ?idx = ?idx" by (rule gather_upt) auto
  have n0: "?n \<noteq> 0" using assms(3) by auto
  show ?thesis
  proof (cases "length ?idx < ?b")
    case True
    let ?v = "?idx @ gather_clamped [0 ..< ?n] [0 ..< ?b - length ?idx]"
    have val: "MoleculeIdxSampler_sample split2 rperm self =
        Inr (?v, self\<lparr>state_m := (?s + ?b) mod ?n\<rparr>)"
      unfolding MoleculeIdxSampler_sample_def Let_def np
      using True n0 assms(2) g1 self_eq by simp
    have len: "length ?v = ?b" using True by (simp add: gather_clamped_def)
    have cover: "set ?v = {0 ..< ?n}" if big: "?n < ?b"
    proof
      show "set ?v \<subseteq> {0 ..< ?n}"
        using assms(3) by (auto simp: gather_clamped_def min_def)
    next
      show "{0 ..< ?n} \<subseteq> set ?v"
      proof
        fix i assume "i \<in> {0 ..< ?n}"
        then have i: "i < ?n" by simp
        show "i \<in> set ?v"
        proof (cases "?s \<le> i")
          case True
          then have "i \<in> set ?idx" using i big by auto
          then show ?thesis by simp
        next
          case False
          then have "i < ?b - length ?idx" using i big assms(3) by auto
          moreover have "[0 ..< ?n] ! min i (length [0 ..< ?n] - 1) = i" using i by (simp add: min_def)
          ultimately have "i \<in> set (gather_clamped [0 ..< ?n] [0 ..< ?b - length ?idx])"
            unfolding gather_clamped_def set_map
            by (intro image_eqI[where x = i]) simp_all
          then show ?thesis by simp
        qed
      qed
    qed
    from val len cover show ?thesis by blast
  next
    case False
    then have le: "?b \<le> ?n" and eq: "min (?s + ?b) ?n - ?s = ?b" by auto
    have val: "MoleculeIdxSampler_sample split2 rperm self =
        Inr (?idx, self\<lparr>state_m := (?s + ?b) mod ?n\<rparr>)"
      unfolding MoleculeIdxSampler_sample_def Let_def
      using n0 assms(2) g1 False by simp
    have "length ?idx = ?b" using eq by simp
    then show ?thesis using val le by auto
  qed
qed

lemma sample_calls_any_batch:
  assumes "shuffle_m self = NoShuffle" "permutation_m self = [0 ..< n_mols self]"
    "state_m self < n_mols self"
  shows "\<exists>vs. sample_calls split2 rperm m self =
              Inr (vs, self\<lparr>state_m := (state_m self + m * batch_size self) mod n_mols self\<rparr>) \<and>
             length vs = m \<and> list_all (\<lambda>v. length v = batch_size self) vs \<and>
             (n_mols self < batch_size self \<longrightarrow> list_all (\<lambda>v. set v = {0 ..< n_mols self}) vs)"
  using assms
proof (induction m arbitrary: self)
  case 0
  then show ?case by simp
next
  case (Suc m)
  let ?s = "state_m self" and ?b = "batch_size self" and ?n = "n_mols self"
  let ?self' = "self\<lparr>state_m := (?s + ?b) mod ?n\<rparr>"
  from sample_any_batch[OF Suc.prems, of split2 rperm] obtain v where
    v: "MoleculeIdxSampler_sample split2 rperm self = Inr (v, ?self')" "length v = ?b"
      "?n < ?b \<longrightarrow> set v = {0 ..< ?n}" by blast
  have n0: "0 < ?n" using Suc.prems by auto
  have pre: "shuffle_m ?self' = NoShuffle" "permutation_m ?self' = [0 ..< n_mols ?self']"
    "state_m ?self' < n_mols ?self'"
    using Suc.prems n0 by simp_all
  from Suc.IH[OF pre] obtain vs where
    vs: "sample_calls split2 rperm m ?self' =
           Inr (vs, ?self'\<lparr>state_m := (state_m ?self' + m * batch_size ?self') mod n_mols ?self'\<rparr>)"
      "length vs = m" "list_all (\<lambda>v. length v = ?b) vs"
      "?n < ?b \<longrightarrow> list_all (\<lambda>v. set v = {0 ..< ?n}) vs"
    by auto
  have e2: "((?s + ?b) mod ?n + m * ?b) mod ?n = (?s + Suc m * ?b) mod ?n"
  proof -
    have "((?s + ?b) mod ?n + m * ?b) mod ?n = ((?s + ?b) + m * ?b) mod ?n"
      by (rule mod_add_left_eq)
    also have "\<dots> = (?s + Suc m * ?b) mod ?n" by (simp add: algebra_simps)
    finally show ?thesis .
  qed
  have "sample_calls split2 rperm (Suc m) self =
      Inr (v # vs, self\<lparr>state_m := (?s + Suc m * ?b) mod ?n\<rparr>)"
    using v(1) vs(1) e2 by (simp del: mult_Suc)
  then show ?case using v(2,3) vs(2,3,4) by auto
qed

lemma cycle_small_batch:
  assumes "0 < b" "b \<le> n"
  shows "\<exists>vs0 s1 vs s2.
           sample_calls split2 rperm (k * ((n + b - 1) div b))
             (MoleculeIdxSampler_init split2 rperm key n b NoShuffle) = Inr (vs0, s1) \<and>
           sample_calls split2 rperm ((n + b - 1) div b) s1 = Inr (vs, s2) \<and>
           length vs = (n + b - 1) div b \<and>
           list_all (\<lambda>v. length v = b) vs \<and>
           set (concat vs) = {0 ..< n} \<and>
           (if b dvd n then list_all (\<lambda>i. count_list (concat vs) i = 1) [0 ..< n]
            else length (concat vs) > n)"
proof -
  let ?c = "(n + b - 1) div b"
  let ?s0 = "MoleculeIdxSampler_init split2 rperm key n b NoShuffle"
  have n: "0 < n" using assms by simp
  have pre0: "shuffle_m ?s0 = NoShuffle" "permutation_m ?s0 = [0 ..< n_mols ?s0]"
    "state_m ?s0 < n_mols ?s0" "batch_size ?s0 \<le> n_mols ?s0" "n_mols ?s0 = n" "batch_size ?s0 = b"
    using assms n by (simp_all add: init_no_shuffle)
  let ?s1 = "?s0\<lparr>state_m := (state_m ?s0 + (k * ?c) * batch_size ?s0) mod n_mols ?s0\<rparr>"
  note r0 = sample_calls_no_shuffle[OF pre0(1-4), of split2 rperm "k * ?c"]
  have pre1: "shuffle_m ?s1 = NoShuffle" "permutation_m ?s1 = [0 ..< n_mols ?s1]"
    "state_m ?s1 < n_mols ?s1" "batch_size ?s1 \<le> n_mols ?s1"
    using assms n by (simp_all add: init_no_shuffle)
  note r1 = sample_calls_no_shuffle[OF pre1, of split2 rperm ?c]
  let ?t = "state_m ?s1"
  let ?vs = "map (\<lambda>c. map (\<lambda>j. (?t + c * b + j) mod n) [0 ..< b]) [0 ..< ?c]"
  have vs: "sample_calls split2 rperm ?c ?s1 =
      Inr (?vs, ?s1\<lparr>state_m := (state_m ?s1 + ?c * batch_size ?s1) mod n_mols ?s1\<rparr>)"
    using r1 by (simp add: init_no_shuffle)
  have cc: "concat ?vs = map (\<lambda>t. (?t + t) mod n) [0 ..< ?c * b]"
    using concat_blocks[of "\<lambda>t. (?t + t) mod n" b ?c] by (simp add: add.assoc)
  have len: "length ?vs = ?c" by simp
  have all: "list_all (\<lambda>v. length v = b) ?vs" by (simp add: list_all_iff)
  have cov: "set (concat ?vs) = {0 ..< n}"
    unfolding cc by (rule residues_cover[OF n ceil_div_covers(1)[OF assms(1)]])
  have once: "list_all (\<lambda>i. count_list (concat ?vs) i = 1) [0 ..< n]" if "b dvd n"
    unfolding cc ceil_div_covers(2)[OF assms(1) that] list_all_iff
    using residues_once by auto
  have more: "length (concat ?vs) > n" if "\<not> b dvd n"
  proof -
    have "b dvd n" if e: "?c * b = n"
    proof -
      have "b dvd ?c * b" by simp
      then show ?thesis unfolding e .
    qed
    then have "?c * b \<noteq> n" using that by blast
    then have "n < ?c * b" using ceil_div_covers(1)[OF assms(1), of n] by simp
    then show ?thesis unfolding cc by simp
  qed
  have r0': "sample_calls split2 rperm (k * ?c) ?s0 =
      Inr (map (\<lambda>c. map (\<lambda>j. (state_m ?s0 + c * batch_size ?s0 + j) mod n_mols ?s0)
                           [0 ..< batch_size ?s0]) [0 ..< k * ?c], ?s1)"
    by (rule r0)
  have fin: "if b dvd n then list_all (\<lambda>i. count_list (concat ?vs) i = 1) [0 ..< n]
            else length (concat ?vs) > n"
    using once more by (cases "b dvd n") simp_all
  from r0' vs len all cov fin show ?thesis by blast
qed


lemma cycle_big_batch:
  assumes "0 < n" "n < b"
  shows "\<exists>vs0 s1 vs s2.
           sample_calls split2 rperm (k * ((n + b - 1) div b))
             (MoleculeIdxSampler_init split2 rperm key n b NoShuffle) = Inr (vs0, s1) \<and>
           sample_calls split2 rperm ((n + b - 1) div b) s1 = Inr (vs, s2) \<and>
           length vs = (n + b - 1) div b \<and>
           list_all (\<lambda>v. length v = b) vs \<and>
           set (concat vs) = {0 ..< n} \<and>
           (if b dvd n then list_all (\<lambda>i. count_list (concat vs) i = 1) [0 ..< n]
            else length (concat vs) > n)"
proof -
  let ?s0 = "MoleculeIdxSampler_init split2 rperm key n b NoShuffle"
  have c: "(n + b - 1) div b = 1"
  proof -
    have "b \<le> n + b - 1" "n + b - 1 < 2 * b" using assms by simp_all
    then have "1 \<le> (n + b - 1) div b" "(n + b - 1) div b < 2"
      using assms by (simp_all add: less_mult_imp_div_less div_greater_zero_iff Suc_le_eq)
    then show ?thesis by simp
  qed
  have nd: "\<not> b dvd n" using assms by (auto dest: dvd_imp_le)
  have pre0: "shuffle_m ?s0 = NoShuffle" "permutation_m ?s0 = [0 ..< n_mols ?s0]"
    "state_m ?s0 < n_mols ?s0"
    using assms by (simp_all add: init_no_shuffle)
  have f0: "n_mols ?s0 = n" "batch_size ?s0 = b" by (simp_all add: init_no_shuffle)
  let ?s1 = "?s0\<lparr>state_m := (state_m ?s0 + k * batch_size ?s0) mod n_mols ?s0\<rparr>"
  from sample_calls_any_batch[OF pre0, of split2 rperm k] obtain vs0 where
    vs0: "sample_calls split2 rperm k ?s0 = Inr (vs0, ?s1)" by blast
  have pre1: "shuffle_m ?s1 = NoShuffle" "permutation_m ?s1 = [0 ..< n_mols ?s1]"
    "state_m ?s1 < n_mols ?s1"
    using assms by (simp_all add: init_no_shuffle)
  have f1: "n_mols ?s1 = n" "batch_size ?s1 = b" by (simp_all add: init_no_shuffle)
  from sample_calls_any_batch[OF pre1, of split2 rperm 1] obtain vs s2 where
    vs: "sample_calls split2 rperm 1 ?s1 = Inr (vs, s2)" "length vs = 1"
      "list_all (\<lambda>v. length v = b) vs" "list_all (\<lambda>v. set v = {0 ..< n}) vs"
    unfolding f1 using assms(2) by blast
  from vs(2) obtain v where v: "vs = [v]" by (cases vs) simp_all
  have cov: "set (concat vs) = {0 ..< n}" using vs(4) unfolding v by simp
  have more: "length (concat vs) > n" using vs(3) assms(2) unfolding v by simp
  have fin: "if b dvd n then list_all (\<lambda>i. count_list (concat vs) i = 1) [0 ..< n]
            else length (concat vs) > n"
    using nd more by simp
  have a: "sample_calls split2 rperm (k * 1) ?s0 = Inr (vs0, ?s1)" using vs0 by simp
  from a vs(1,2,3) cov fin show ?thesis unfolding c by blast
qed


text \<open>
  Claim C8, as the code has it. Without shuffling, with \<open>batch_size \<ge> 1\<close> and \<open>n_mols \<ge> 1\<close>,
  take any cycle of \<open>ceil(n_mols / batch_size)\<close> calls that follows \<open>k\<close> full cycles
  after the construction. No call raises, every call of the cycle returns exactly
  \<open>batch_size\<close> indices, and together they visit every index below \<open>n_mols\<close>. Each
  index is visited exactly once when \<open>batch_size\<close> divides \<open>n_mols\<close>; otherwise the
  cycle returns more than \<open>n_mols\<close> indices, because the last call wraps around to fill
  its batch.
\<close>

theorem idx_sampler_cycle:
  assumes "0 < b" "0 < n"
  shows "\<exists>vs0 s1 vs s2.
           sample_calls split2 rperm (k * ((n + b - 1) div b))
             (MoleculeIdxSampler_init split2 rperm key n b NoShuffle) = Inr (vs0, s1) \<and>
           sample_calls split2 rperm ((n + b - 1) div b) s1 = Inr (vs, s2) \<and>
           length vs = (n + b - 1) div b \<and>
           list_all (\<lambda>v. length v = b) vs \<and>
           set (concat vs) = {0 ..< n} \<and>
           (if b dvd n then list_all (\<lambda>i. count_list (concat vs) i = 1) [0 ..< n]
            else length (concat vs) > n)"
proof (cases "b \<le> n")
  case True
  show ?thesis by (rule cycle_small_batch[OF assms(1) True])
next
  case False
  then have "n < b" by simp
  show ?thesis by (rule cycle_big_batch[OF assms(2) \<open>n < b\<close>])
qed

theorem idx_sampler_cycle_witness:
  "(0::nat) < 2 \<and> (0::nat) < 4 \<and>
   (\<exists>vs0 s1 vs s2.
      sample_calls (Pair 0) rotate (1 * ((4 + 2 - 1) div 2))
        (MoleculeIdxSampler_init (Pair 0) rotate (0::nat) 4 2 NoShuffle) = Inr (vs0, s1) \<and>
      sample_calls (Pair 0) rotate ((4 + 2 - 1) div 2) s1 = Inr (vs, s2) \<and>
      length vs = (4 + 2 - 1) div 2 \<and>
      list_all (\<lambda>v. length v = 2) vs \<and>
      set (concat vs) = {0 ..< 4} \<and>
      (if (2::nat) dvd 4 then list_all (\<lambda>i. count_list (concat vs) i = 1) [0 ..< 4]
       else length (concat vs) > 4)) \<and>
   sample_calls (Pair 0) rotate 4 (MoleculeIdxSampler_init (Pair 0) rotate (0::nat) 4 2 NoShuffle)
     = Inr ([[0, 1], [2, 3], [0, 1], [2, 3]],
            \<lparr>rng_m = 0, n_mols = 4, batch_size = 2, state_m = 0, shuffle_m = NoShuffle,
             permutation_m = [0, 1, 2, 3]\<rparr>) \<and>
   sample_calls (Pair 0) rotate 2 (MoleculeIdxSampler_init (Pair 0) rotate (0::nat) 2 3 NoShuffle)
     = Inr ([[0, 1, 0], [1, 0, 1]],
            \<lparr>rng_m = 0, n_mols = 2, batch_size = 3, state_m = 0, shuffle_m = NoShuffle,
             permutation_m = [0, 1]\<rparr>)"
proof -
  have a: "(0::nat) < 2" and b: "(0::nat) < 4" by simp_all
  note t = idx_sampler_cycle[OF a b, of "Pair 0" rotate 1 "0::nat"]
  have e: "sample_calls (Pair 0) rotate 4
      (MoleculeIdxSampler_init (Pair 0) rotate (0::nat) 4 2 NoShuffle)
     = Inr ([[0, 1], [2, 3], [0, 1], [2, 3]],
            \<lparr>rng_m = 0, n_mols = 4, batch_size = 2, state_m = 0, shuffle_m = NoShuffle,
             permutation_m = [0, 1, 2, 3]\<rparr>)"
    by code_simp
  have f: "sample_calls (Pair 0) rotate 2
      (MoleculeIdxSampler_init (Pair 0) rotate (0::nat) 2 3 NoShuffle)
     = Inr ([[0, 1, 0], [1, 0, 1]],
            \<lparr>rng_m = 0, n_mols = 2, batch_size = 3, state_m = 0, shuffle_m = NoShuffle,
             permutation_m = [0, 1]\<rparr>)"
    by code_simp
  from a b t e f show ?thesis by blast
qed

text \<open>
  The claim as stated fails for 5 geometries in batches of 2: the cycle of
  \<open>ceil(5/2) = 3\<close> calls returns index 0 twice.
\<close>

theorem idx_sampler_cycle_counterexample:
  "sample_calls (Pair 0) rotate ((5 + 2 - 1) div 2)
      (MoleculeIdxSampler_init (Pair 0) rotate (0::nat) 5 2 NoShuffle)
     = Inr ([[0, 1], [2, 3], [4, 0]],
            \<lparr>rng_m = 0, n_mols = 5, batch_size = 2, state_m = 1, shuffle_m = NoShuffle,
             permutation_m = [0, 1, 2, 3, 4]\<rparr>) \<and>
   count_list (concat [[0, 1], [2, 3], [4, 0::nat]]) 0 = 2"
  by code_simp

section \<open>Theorems: force cleaning\<close>






lemma dot_scale: "dot (scale a u) (scale b v) = a * b * dot u v"
  by (cases u, cases v) (simp add: dot_def scale_def algebra_simps)













section \<open>Theorems: sampler construction and chain\<close>













section \<open>Theorems: decorrelation in a chain\<close>

lemma iterate_sample_length:
  "iterate_sample f ks st = Inr rs \<Longrightarrow> length rs = length ks"
proof (induction ks arbitrary: st rs)
  case Nil
  then show ?case by simp
next
  case (Cons k ks)
  then show ?case by (auto split: sum.splits prod.splits)
qed

lemma iterate_sample_elems:
  "iterate_sample f ks st = Inr rs \<Longrightarrow> x \<in> set rs \<Longrightarrow> \<exists>k s0. f k s0 = Inr x"
proof (induction ks arbitrary: st rs)
  case Nil
  then show ?case by simp
next
  case (Cons k ks)
  then show ?case by (fastforce split: sum.splits prod.splits)
qed

lemma scan_iterate:
  "scan (\<lambda>state rng'. case f rng' state of
                         Inl e \<Rightarrow> Inl e
                       | Inr (state', conf, stats) \<Rightarrow> Inr (state', stats)) st ks
   = (case iterate_sample f ks st of
        Inl e \<Rightarrow> Inl e
      | Inr rs \<Rightarrow> Inr (if rs = [] then st else fst (last rs), map (\<lambda>x. snd (snd x)) rs))"
proof (induction ks arbitrary: st)
  case Nil
  show ?case by simp
next
  case (Cons k ks)
  show ?case
  proof (cases "f k st")
    case (Inl e)
    then show ?thesis by simp
  next
    case (Inr x)
    obtain st' conf stats where x: "x = (st', conf, stats)" by (cases x) auto
    show ?thesis
    proof (cases "iterate_sample f ks st'")
      case (Inl e)
      then show ?thesis using Inr x Cons.IH[of st'] by simp
    next
      case rs: (Inr rs)
      then show ?thesis using Inr x Cons.IH[of st'] by simp
    qed
  qed
qed

lemma mover_conf:
  "MetropolisSampler_sample E mro d R k st = Inr (st', c, s) \<Longrightarrow> self_phys_conf mro R st' = Inr c"
  by (auto simp: MetropolisSampler_sample_def Let_def split: option.splits prod.splits sum.splits)

lemma decorr_iterates:
  assumes "d ''length'' = Some (PInt len)" "0 < len"
    "length (e_split E rng (nat len)) = nat len"
  shows "DecorrSampler_sample E mro d (MetropolisSampler_sample E mro d R) R rng st =
           (case iterate_sample (MetropolisSampler_sample E mro d R) (e_split E rng (nat len)) st of
              Inl e \<Rightarrow> Inl e
            | Inr rs \<Rightarrow> Inr (last rs))"
proof -
  let ?f = "MetropolisSampler_sample E mro d R" and ?ks = "e_split E rng (nat len)"
  show ?thesis
  proof (cases "iterate_sample ?f ?ks st")
    case (Inl e)
    then show ?thesis
      using assms(1,2) by (simp add: DecorrSampler_sample_def scan_iterate)
  next
    case (Inr rs)
    have len: "length rs = nat len" using iterate_sample_length[OF Inr] assms(3) by simp
    then have ne: "rs \<noteq> []" using assms(2) by auto
    obtain st' c s where l: "last rs = (st', c, s)" by (cases "last rs") auto
    have "last rs \<in> set rs" using ne by simp
    from iterate_sample_elems[OF Inr this] l obtain k s0 where "?f k s0 = Inr (st', c, s)"
      by auto
    then have conf: "self_phys_conf mro R st' = Inr c" by (rule mover_conf)
    have lm: "last (map (\<lambda>x. snd (snd x)) rs) = s" using ne l by (simp add: last_map)
    show ?thesis
      using assms(1,2) Inr ne l conf lm
      by (simp add: DecorrSampler_sample_def scan_iterate)
  qed
qed


lemma c3_decorr_mover:
  "c3_merge [[DecorrSampler, Sampler], [MetropolisSampler, Sampler], [DecorrSampler, MetropolisSampler]]
     = Some [DecorrSampler, MetropolisSampler, Sampler]"
  "c3_merge [[DecorrSampler, Sampler], [LangevinSampler, MetropolisSampler, Sampler],
             [DecorrSampler, LangevinSampler]]
     = Some [DecorrSampler, LangevinSampler, MetropolisSampler, Sampler]"
  by code_simp+

lemma chain_decorr_mover:
  assumes "c = MetropolisSampler \<or> c = LangevinSampler"
  shows "\<exists>name. chain [DecorrSampler_init len, mover_init c hamil wfn tau0 ta ma] =
           Inr \<lparr>ch_name = name, ch_mro = DecorrSampler # mro_of c,
                ch_dict = obj_dict (DecorrSampler_init len) ++ obj_dict (mover_init c hamil wfn tau0 ta ma)\<rparr>"
proof -
  from assms show ?thesis
  proof
    assume c: "c = MetropolisSampler"
    show ?thesis unfolding c chain_def Let_def
      by (simp add: c3_decorr_mover DecorrSampler_init_def mover_init_def)
  next
    assume c: "c = LangevinSampler"
    show ?thesis unfolding c chain_def Let_def
      by (simp add: c3_decorr_mover DecorrSampler_init_def mover_init_def)
  qed
qed

lemma sample_from_mover:
  assumes "c = MetropolisSampler \<or> c = LangevinSampler"
  shows "sample_from E mro d (mro_of c) = MetropolisSampler_sample E mro d"
  using assms by auto

lemma mover_cls_decorr:
  assumes "c = MetropolisSampler \<or> c = LangevinSampler"
  shows "mover_cls (DecorrSampler # mro_of c) = Some c" "mover_cls (mro_of c) = Some c"
  using assms by (auto simp: mover_cls_def)

lemma self_phys_conf_decorr:
  assumes "c = MetropolisSampler \<or> c = LangevinSampler"
  shows "self_phys_conf (DecorrSampler # mro_of c) = self_phys_conf (mro_of c)"
  using assms by (auto simp: self_phys_conf_def fun_eq_iff)

lemma mover_attrs_decorr:
  "(obj_dict (DecorrSampler_init len) ++ obj_dict (mover_init c hamil wfn tau0 ta ma)) |` mover_attrs
     = obj_dict (mover_init c hamil wfn tau0 ta ma) |` mover_attrs"
  by (auto simp: fun_eq_iff restrict_map_def map_add_def DecorrSampler_init_def mover_init_def
      mover_attrs_def)

lemma mover_sample_in_chain:
  assumes "c = MetropolisSampler \<or> c = LangevinSampler"
  shows "MetropolisSampler_sample E (DecorrSampler # mro_of c)
           (obj_dict (DecorrSampler_init len) ++ obj_dict (mover_init c hamil wfn tau0 ta ma))
         = MetropolisSampler_sample E (mro_of c) (obj_dict (mover_init c hamil wfn tau0 ta ma))"
  unfolding MetropolisSampler_sample_def mover_cls_decorr[OF assms] self_phys_conf_decorr[OF assms]
    mover_attrs_decorr ..

text \<open>
  Claim C6. Let the mover be a \<^verbatim>\<open>MetropolisSampler\<close> or a \<^verbatim>\<open>LangevinSampler\<close>, the
  length positive, and \<^verbatim>\<open>jax.random.split(rng, length)\<close> give \<open>length\<close> keys. Then
  \<^verbatim>\<open>chain(DecorrSampler(length), mover)\<close> returns an object, and one call of its
  \<^verbatim>\<open>sample\<close> returns what the last of \<open>length\<close> successive calls of the mover's own
  \<^verbatim>\<open>sample\<close> returns, one call per key, each on the state of the call before: the final
  state, its configuration and the statistics of the final step (or the exception the
  first failing call raises). The run of the mover has exactly \<open>length\<close> steps.
\<close>

theorem decorr_chain_iterates:
  assumes "c = MetropolisSampler \<or> c = LangevinSampler"
    and "0 < len" and "length (e_split E rng (nat len)) = nat len"
  shows "\<exists>ch. chain [DecorrSampler_init (PInt len), mover_init c hamil wfn tau0 ta ma] = Inr ch \<and>
           sample E ch R rng st =
             (case iterate_sample (sample E (as_chained (mover_init c hamil wfn tau0 ta ma)) R)
                     (e_split E rng (nat len)) st of
                Inl e \<Rightarrow> Inl e
              | Inr rs \<Rightarrow> Inr (last rs)) \<and>
           (case iterate_sample (sample E (as_chained (mover_init c hamil wfn tau0 ta ma)) R)
                     (e_split E rng (nat len)) st of
                Inl e \<Rightarrow> True
              | Inr rs \<Rightarrow> length rs = nat len)"
proof -
  let ?m = "mover_init c hamil wfn tau0 ta ma"
  let ?d = "obj_dict (DecorrSampler_init (PInt len)) ++ obj_dict ?m"
  let ?mro = "DecorrSampler # mro_of c"
  from chain_decorr_mover[OF assms(1), of "PInt len" hamil wfn tau0 ta ma] obtain name where
    ch: "chain [DecorrSampler_init (PInt len), ?m] = Inr \<lparr>ch_name = name, ch_mro = ?mro, ch_dict = ?d\<rparr>"
    by blast
  let ?ch = "\<lparr>ch_name = name, ch_mro = ?mro, ch_dict = ?d\<rparr>"
  have alone: "sample E (as_chained ?m) = MetropolisSampler_sample E (mro_of c) (obj_dict ?m)"
    unfolding sample_def as_chained_def
    by (simp add: mover_init_def sample_from_mover[OF assms(1)])
  have dl: "?d ''length'' = Some (PInt len)"
    by (simp add: DecorrSampler_init_def mover_init_def map_add_def)
  have "sample E ?ch R rng st =
      DecorrSampler_sample E ?mro ?d (MetropolisSampler_sample E ?mro ?d R) R rng st"
    unfolding sample_def by (simp add: sample_from_mover[OF assms(1)])
  also have "\<dots> = (case iterate_sample (MetropolisSampler_sample E ?mro ?d R) (e_split E rng (nat len)) st of
              Inl e \<Rightarrow> Inl e | Inr rs \<Rightarrow> Inr (last rs))"
    by (rule decorr_iterates[where d = "?d" and len = len, OF dl assms(2,3)])
  finally have s: "sample E ?ch R rng st =
      (case iterate_sample (sample E (as_chained ?m) R) (e_split E rng (nat len)) st of
              Inl e \<Rightarrow> Inl e | Inr rs \<Rightarrow> Inr (last rs))"
    unfolding alone mover_sample_in_chain[OF assms(1)] .
  have l: "(case iterate_sample (sample E (as_chained ?m) R) (e_split E rng (nat len)) st of
                Inl e \<Rightarrow> True | Inr rs \<Rightarrow> length rs = nat len)"
    using iterate_sample_length[of "sample E (as_chained ?m) R" "e_split E rng (nat len)" st] assms(3)
    by (auto split: sum.splits)
  from ch s l show ?thesis by blast
qed

lemma upt3: "[0 ..< 3] = [0, 1, 2]" "[0 ..< 2] = [0, 1]"
  by (simp_all add: upt_rec)

lemmas run_defs = sample_def as_chained_def MetropolisSampler_init_def mover_init_def
  MetropolisSampler_sample_def mover_cls_def count_env_def self_phys_conf_def phys_conf_def
  two_walkers_def one_nucleus_def Let_def upt3

theorem decorr_chain_iterates_witness:
  "(0::int) < 3 \<and> length (e_split count_env 0 (nat 3)) = nat 3 \<and>
   (\<exists>ch. chain [DecorrSampler_init (PInt 3),
                 mover_init MetropolisSampler (PObj 0) (PObj 1) (PFloat 1) (PFloat (57/100)) PNone]
            = Inr ch \<and>
          sample count_env ch one_nucleus 0 two_walkers =
            (case iterate_sample
                    (sample count_env
                       (as_chained (mover_init MetropolisSampler (PObj 0) (PObj 1) (PFloat 1)
                                      (PFloat (57/100)) PNone)) one_nucleus)
                    (e_split count_env 0 (nat 3)) two_walkers of
               Inl e \<Rightarrow> Inl e
             | Inr rs \<Rightarrow> Inr (last rs))) \<and>
   map_sum id (map (\<lambda>x. fst x ''age''))
     (iterate_sample
        (sample count_env
           (as_chained (mover_init MetropolisSampler (PObj 0) (PObj 1) (PFloat 1)
                          (PFloat (57/100)) PNone)) one_nucleus)
        (e_split count_env 0 (nat 3)) two_walkers)
     = Inr [Some (Leaf (Arr [Num 1, Num 1])), Some (Leaf (Arr [Num 2, Num 2])),
            Some (Leaf (Arr [Num 3, Num 3]))]"
proof -
  have h1: "MetropolisSampler = MetropolisSampler \<or> MetropolisSampler = LangevinSampler" by simp
  have h2: "(0::int) < 3" by simp
  have h3: "length (e_split count_env 0 (nat 3)) = nat 3" by (simp add: count_env_def)
  note inst = decorr_chain_iterates[OF h1 h2 h3, of "PObj 0" "PObj 1" "PFloat 1" "PFloat (57/100)" PNone
      one_nucleus two_walkers]
  have ev: "map_sum id (map (\<lambda>x. fst x ''age''))
     (iterate_sample
        (sample count_env
           (as_chained (mover_init MetropolisSampler (PObj 0) (PObj 1) (PFloat 1)
                          (PFloat (57/100)) PNone)) one_nucleus)
        (e_split count_env 0 (nat 3)) two_walkers)
     = Inr [Some (Leaf (Arr [Num 1, Num 1])), Some (Leaf (Arr [Num 2, Num 2])),
            Some (Leaf (Arr [Num 3, Num 3]))]"
    by (simp add: run_defs)
  from h2 h3 inst ev show ?thesis by blast
qed

section \<open>Theorems: resampling\<close>

lemma take_all_fields:
  assumes "take_all d ks idx = Inr d'" "distinct ks"
  shows "(\<forall>k \<in> set ks. case d k of None \<Rightarrow> d' k = None
                                   | Some v \<Rightarrow> \<exists>v'. take_val v idx = Inr v' \<and> d' k = Some v') \<and>
         (\<forall>k. k \<notin> set ks \<longrightarrow> d' k = d k)"
  using assms
proof (induction ks arbitrary: d)
  case Nil
  then show ?case by simp
next
  case (Cons k ks)
  show ?case
  proof (cases "d k")
    case None
    with Cons.prems have r: "take_all d ks idx = Inr d'" by simp
    from Cons.IH[OF r] Cons.prems(2) have
      ih: "\<forall>k \<in> set ks. case d k of None \<Rightarrow> d' k = None
                                   | Some v \<Rightarrow> \<exists>v'. take_val v idx = Inr v' \<and> d' k = Some v'"
        "\<forall>k. k \<notin> set ks \<longrightarrow> d' k = d k"
      by auto
    have "d' k = None" using ih(2) Cons.prems(2) None by auto
    then show ?thesis using ih None by auto
  next
    case (Some v)
    with Cons.prems(1) obtain v' where v': "take_val v idx = Inr v'"
      and r: "take_all (d(k \<mapsto> v')) ks idx = Inr d'"
      by (auto split: sum.splits)
    from Cons.IH[OF r] Cons.prems(2) have
      ih: "\<forall>j \<in> set ks. case (d(k \<mapsto> v')) j of None \<Rightarrow> d' j = None
                                   | Some v \<Rightarrow> \<exists>v'. take_val v idx = Inr v' \<and> d' j = Some v'"
        "\<forall>j. j \<notin> set ks \<longrightarrow> d' j = (d(k \<mapsto> v')) j"
      by auto
    have k: "d' k = Some v'" using ih(2) Cons.prems(2) by auto
    have rest: "\<forall>j \<in> set ks. case d j of None \<Rightarrow> d' j = None
                                   | Some v \<Rightarrow> \<exists>v'. take_val v idx = Inr v' \<and> d' j = Some v'"
    proof
      fix j assume j: "j \<in> set ks"
      then have "j \<noteq> k" using Cons.prems(2) by auto
      then show "case d j of None \<Rightarrow> d' j = None
                                   | Some v \<Rightarrow> \<exists>v'. take_val v idx = Inr v' \<and> d' j = Some v'"
        using ih(1) j by (auto simp: fun_upd_def)
    qed
    have other: "\<forall>j. j \<notin> set (k # ks) \<longrightarrow> d' j = d j" using ih(2) by auto
    show ?thesis using Some v' k rest other by auto
  qed
qed

lemma WALKER_STATE_keys:
  assumes "WALKER_STATE mro = Inr ws"
  shows "distinct ws" "''step'' \<notin> set ws" "''log_weight'' \<notin> set ws"
  using assms by (auto simp: WALKER_STATE_def split: option.splits if_splits)

lemma entries_zeros_like: "list_all (\<lambda>x. x = 0) (entries (zeros_like a))"
  by (induction a) (auto simp: list_all_iff)

lemma ess_of_zeros:
  assumes "xs \<noteq> []"
  shows "ess_of (zeros_like (Arr (map Num xs))) = Fin (real (length xs))"
proof -
  have e: "entries (zeros_like (Arr (map Num xs))) = replicate (length xs) 0"
    by (induction xs) simp_all
  have s: "sum_list (replicate n (1::real)) = real n" for n
    by (induction n) simp_all
  have n: "real (length xs) \<noteq> 0" using assms by simp
  show ?thesis
    unfolding ess_of_def e Let_def using n by (simp add: s power2_eq_square)
qed


lemma resample_walkers_result:
  assumes "resample_walkers E mro rng_re st = Inr st'"
    and "st ''log_weight'' = Some (Leaf lw)"
  shows "st' ''log_weight'' = Some (Leaf (zeros_like lw)) \<and>
         st' ''step'' = Some (Leaf (Num 0)) \<and>
         (\<exists>ws. WALKER_STATE mro = Inr ws \<and>
            (\<forall>k \<in> set ws. case st k of
                 None \<Rightarrow> st' k = None
               | Some v \<Rightarrow> \<exists>v'. take_val v (e_multinomial E rng_re (arr_map exp lw)) = Inr v' \<and>
                                 st' k = Some v') \<and>
            (\<forall>k. k \<notin> set ws \<and> k \<noteq> ''step'' \<and> k \<noteq> ''log_weight'' \<longrightarrow> st' k = st k))"
proof -
  let ?idx = "e_multinomial E rng_re (arr_map exp lw)"
  from assms obtain ws where ws: "WALKER_STATE mro = Inr ws"
    by (auto simp: resample_walkers_def Let_def split: sum.splits)
  note keys = WALKER_STATE_keys[OF ws]
  let ?walker = "\<lambda>k. if k \<in> set ws then st k else None"
  let ?other = "\<lambda>k. if k \<in> set ws then None else st k"
  have ol: "?other ''log_weight'' = Some (Leaf lw)" using keys(3) assms(2) by simp
  from assms ws ol obtain walker' where
    w: "take_all ?walker ws ?idx = Inr walker'"
    and st': "st' = (walker' ++ ?other)(''step'' \<mapsto> Leaf (Num 0),
                                       ''log_weight'' \<mapsto> Leaf (zeros_like lw))"
    by (auto simp: resample_walkers_def Let_def split_dict_def split: sum.splits)
  from take_all_fields[OF w keys(1)] have
    f1: "\<forall>k \<in> set ws. case ?walker k of None \<Rightarrow> walker' k = None
                                   | Some v \<Rightarrow> \<exists>v'. take_val v ?idx = Inr v' \<and> walker' k = Some v'"
    and f2: "\<forall>k. k \<notin> set ws \<longrightarrow> walker' k = ?walker k"
    by blast+
  have a: "st' ''log_weight'' = Some (Leaf (zeros_like lw))" unfolding st' by simp
  have b: "st' ''step'' = Some (Leaf (Num 0))" unfolding st' by simp
  have c: "case st k of None \<Rightarrow> st' k = None
           | Some v \<Rightarrow> \<exists>v'. take_val v ?idx = Inr v' \<and> st' k = Some v'" if k: "k \<in> set ws" for k
  proof -
    have ne: "k \<noteq> ''step''" "k \<noteq> ''log_weight''" using k keys by auto
    have "st' k = walker' k" unfolding st' using ne k by (simp add: map_add_def)
    moreover have "case st k of None \<Rightarrow> walker' k = None
           | Some v \<Rightarrow> \<exists>v'. take_val v ?idx = Inr v' \<and> walker' k = Some v'"
      using f1 k by auto
    ultimately show ?thesis by (cases "st k") auto
  qed
  have d: "st' k = st k" if k: "k \<notin> set ws \<and> k \<noteq> ''step'' \<and> k \<noteq> ''log_weight''" for k
  proof -
    have "walker' k = None" using f2 k by simp
    then show ?thesis unfolding st' using k by (simp add: map_add_def split: option.splits)
  qed
  from a b ws c d show ?thesis by blast
qed

text \<open>
  Claim C5. Take a call of \<^verbatim>\<open>ResampledSampler.sample\<close> that returns, in which the
  inner sampler left the state \<open>st1\<close> with step counter \<open>stp\<close> and log-weights \<open>lw\<close>,
  and in which the condition for resampling holds. In the state returned the
  log-weights are zero for every walker, the step counter is zero, every walker-state
  entry (\<^verbatim>\<open>WALKER_STATE\<close>) is the entry of \<open>st1\<close> taken at the indices drawn by
  \<^verbatim>\<open>multinomial_resampling\<close>, every other entry is unchanged, and the effective sample
  size of the new weights is the number of walkers (for the log-weights of a non-empty
  batch, one per walker).
\<close>

theorem resampling_resets_walkers:
  assumes "e_split E rng 2 = [rng_re, rng_smpl]"
    and "super_sample rng_smpl st0 = Inr (st1, conf1, stats1)"
    and "st1 ''step'' = Some (Leaf (Num stp))"
    and "st1 ''log_weight'' = Some (Leaf lw)"
    and "d ''period'' = Some period" and "d ''treshold'' = Some treshold"
    and "resample_pred period treshold (stp + 1) lw = Inr True"
    and "ResampledSampler_sample E mro d super_sample R rng st0 = Inr (st3, conf, stats)"
  shows "st3 ''log_weight'' = Some (Leaf (zeros_like lw)) \<and>
         list_all (\<lambda>x. x = 0) (entries (zeros_like lw)) \<and>
         st3 ''step'' = Some (Leaf (Num 0)) \<and>
         (\<exists>ws. WALKER_STATE mro = Inr ws \<and>
            (\<forall>k \<in> set ws. case st1 k of
                 None \<Rightarrow> st3 k = None
               | Some v \<Rightarrow> \<exists>v'. take_val v (e_multinomial E rng_re (arr_map exp lw)) = Inr v' \<and>
                                 st3 k = Some v') \<and>
            (\<forall>k. k \<notin> set ws \<and> k \<noteq> ''step'' \<and> k \<noteq> ''log_weight'' \<longrightarrow> st3 k = st1 k)) \<and>
         (\<forall>xs. lw = Arr (map Num xs) \<and> xs \<noteq> [] \<longrightarrow>
                ess_of (zeros_like lw) = Fin (real (length xs)))"
proof -
  let ?st2 = "st1(''step'' \<mapsto> Leaf (Num (stp + 1)))"
  have lw2: "?st2 ''log_weight'' = Some (Leaf lw)" using assms(4) by simp
  from assms(8) have r: "resample_walkers E mro rng_re ?st2 = Inr st3"
    unfolding ResampledSampler_sample_def assms(1)
    by (simp add: assms(2,3,4,5,6,7) Let_def split: sum.splits)
  from resample_walkers_result[OF r lw2] obtain ws where
    res: "st3 ''log_weight'' = Some (Leaf (zeros_like lw))" "st3 ''step'' = Some (Leaf (Num 0))"
      "WALKER_STATE mro = Inr ws"
      "\<forall>k \<in> set ws. case ?st2 k of
                 None \<Rightarrow> st3 k = None
               | Some v \<Rightarrow> \<exists>v'. take_val v (e_multinomial E rng_re (arr_map exp lw)) = Inr v' \<and>
                                 st3 k = Some v'"
      "\<forall>k. k \<notin> set ws \<and> k \<noteq> ''step'' \<and> k \<noteq> ''log_weight'' \<longrightarrow> st3 k = ?st2 k"
    by blast
  note keys = WALKER_STATE_keys[OF res(3)]
  have c: "\<forall>k \<in> set ws. case st1 k of
                 None \<Rightarrow> st3 k = None
               | Some v \<Rightarrow> \<exists>v'. take_val v (e_multinomial E rng_re (arr_map exp lw)) = Inr v' \<and>
                                 st3 k = Some v'"
  proof
    fix k assume k: "k \<in> set ws"
    then have "k \<noteq> ''step''" using keys(2) by auto
    then have "?st2 k = st1 k" by simp
    then show "case st1 k of
                 None \<Rightarrow> st3 k = None
               | Some v \<Rightarrow> \<exists>v'. take_val v (e_multinomial E rng_re (arr_map exp lw)) = Inr v' \<and>
                                 st3 k = Some v'"
      using res(4) k by (metis (no_types, lifting))
  qed
  have d: "\<forall>k. k \<notin> set ws \<and> k \<noteq> ''step'' \<and> k \<noteq> ''log_weight'' \<longrightarrow> st3 k = st1 k"
    using res(5) by simp
  have e: "\<forall>xs. lw = Arr (map Num xs) \<and> xs \<noteq> [] \<longrightarrow>
                ess_of (zeros_like lw) = Fin (real (length xs))"
    using ess_of_zeros by blast
  from res(1,2,3) c d e entries_zeros_like[of lw] show ?thesis by blast
qed

theorem resampling_resets_walkers_witness:
  "resample_pred (PInt 1) PNone (0 + 1) (Arr [Num 0, Num (-1)]) = Inr True \<and>
   (\<exists>st3 conf stats.
      ResampledSampler_sample count_env [ResampledSampler, MetropolisSampler, Sampler]
        [''period'' \<mapsto> PInt 1, ''treshold'' \<mapsto> PNone]
        (MetropolisSampler_sample count_env [ResampledSampler, MetropolisSampler, Sampler]
           [''period'' \<mapsto> PInt 1, ''treshold'' \<mapsto> PNone] one_nucleus)
        one_nucleus 0 two_walkers = Inr (st3, conf, stats) \<and>
      st3 ''log_weight'' = Some (Leaf (Arr [Num 0, Num 0])) \<and>
      st3 ''step'' = Some (Leaf (Num 0)) \<and>
      st3 ''r'' = Some (Leaf (Arr [Arr [Arr [Num 1, Num 2, Num 3]], Arr [Arr [Num 1, Num 2, Num 3]]])) \<and>
      st3 ''tau'' = Some (Leaf (Num 1)) \<and>
      ess_of (Arr [Num 0, Num 0]) = Fin 2)"
proof -
  let ?mro = "[ResampledSampler, MetropolisSampler, Sampler]"
  let ?d = "[''period'' \<mapsto> PInt 1, ''treshold'' \<mapsto> PNone]"
  let ?super = "MetropolisSampler_sample count_env ?mro ?d one_nucleus"
  let ?lw = "Arr [Num 0, Num (-1)]"
  let ?st1 = "two_walkers(''age'' \<mapsto> Leaf (Arr [Num 1, Num 1]))"
  have h1: "e_split count_env 0 2 = [1, 2]" by (simp add: count_env_def upt3)
  have h2: "?super 2 two_walkers =
      Inr (?st1, \<lparr>pc_R = Arr [one_nucleus, one_nucleus],
                  pc_r = Arr [Arr [Arr [Num 0, Num 0, Num 1]], Arr [Arr [Num 1, Num 2, Num 3]]],
                  pc_mol_idx = Arr [Num 0, Num 0]\<rparr>, Map.empty)"
    by (simp add: run_defs)
  have h3: "?st1 ''step'' = Some (Leaf (Num 0))" by (simp add: two_walkers_def)
  have h4: "?st1 ''log_weight'' = Some (Leaf ?lw)" by (simp add: two_walkers_def)
  have h5: "?d ''period'' = Some (PInt 1)" and h6: "?d ''treshold'' = Some PNone" by simp_all
  have h7: "resample_pred (PInt 1) PNone (0 + 1) ?lw = Inr True"
    by (simp add: resample_pred_def)
  let ?st2 = "?st1(''step'' \<mapsto> Leaf (Num (0 + 1)))"
  have step1: "ResampledSampler_sample count_env ?mro ?d ?super one_nucleus 0 two_walkers =
      (case resample_walkers count_env ?mro 1 ?st2 of
         Inl e \<Rightarrow> Inl e
       | Inr st3 \<Rightarrow>
           (case self_phys_conf ?mro one_nucleus st3 of
              Inl e \<Rightarrow> Inl e
            | Inr conf \<Rightarrow> Inr (st3, conf, Map.empty(''sampling/effective sample size'' \<mapsto> ess_of ?lw))))"
  proof -
    have t1: "two_walkers ''step'' = Some (Leaf (Num 0))"
      and t2: "two_walkers ''log_weight'' = Some (Leaf ?lw)"
      by (simp_all add: two_walkers_def)
    have h7': "resample_pred (PInt 1) PNone 1 ?lw = Inr True"
      by (simp add: resample_pred_def)
    show ?thesis
      unfolding ResampledSampler_sample_def h1
      by (simp add: h2 t1 t2 h7' Let_def)
  qed
  have step2: "\<exists>st3. resample_walkers count_env ?mro 1 ?st2 = Inr st3 \<and>
      st3 ''r'' = Some (Leaf (Arr [Arr [Arr [Num 1, Num 2, Num 3]], Arr [Arr [Num 1, Num 2, Num 3]]]))"
    by (simp add: resample_walkers_def WALKER_STATE_def mover_cls_def split_dict_def
        take_val_def take_idx_def gather_clamped_def count_env_def two_walkers_def Let_def
        map_add_def numeral_2_eq_2)
  then obtain st3' where st3': "resample_walkers count_env ?mro 1 ?st2 = Inr st3'"
    "st3' ''r'' = Some (Leaf (Arr [Arr [Arr [Num 1, Num 2, Num 3]], Arr [Arr [Num 1, Num 2, Num 3]]]))"
    by blast
  have "\<exists>conf. self_phys_conf ?mro one_nucleus st3' = Inr conf"
    by (simp add: self_phys_conf_def st3'(2) phys_conf_def)
  then have "\<exists>x. ResampledSampler_sample count_env ?mro ?d ?super one_nucleus 0 two_walkers = Inr x"
    unfolding step1 st3'(1) by auto
  then obtain st3 conf stats where
    h8: "ResampledSampler_sample count_env ?mro ?d ?super one_nucleus 0 two_walkers
           = Inr (st3, conf, stats)"
    by (metis prod_cases3)
  note inst = resampling_resets_walkers[OF h1 h2 h3 h4 h5 h6 h7 h8]
  have idx: "e_multinomial count_env 1 (arr_map exp ?lw) = [1, 1]"
    by (simp add: count_env_def numeral_2_eq_2)
  have ws: "WALKER_STATE ?mro = Inr [''r'', ''psi'', ''age'']"
    by (simp add: WALKER_STATE_def mover_cls_def)
  from inst have a: "st3 ''log_weight'' = Some (Leaf (Arr [Num 0, Num 0]))"
    and b: "st3 ''step'' = Some (Leaf (Num 0))" by simp_all
  from inst ws have
    c: "\<forall>k \<in> set [''r'', ''psi'', ''age'']. case ?st1 k of
                 None \<Rightarrow> st3 k = None
               | Some v \<Rightarrow> \<exists>v'. take_val v [1, 1] = Inr v' \<and> st3 k = Some v'"
    and d: "\<forall>k. k \<notin> set [''r'', ''psi'', ''age''] \<and> k \<noteq> ''step'' \<and> k \<noteq> ''log_weight''
              \<longrightarrow> st3 k = ?st1 k"
    unfolding idx by auto
  from c have r: "st3 ''r'' = Some (Leaf (Arr [Arr [Arr [Num 1, Num 2, Num 3]], Arr [Arr [Num 1, Num 2, Num 3]]]))"
    by (auto simp: two_walkers_def take_val_def take_idx_def gather_clamped_def)
  from d have t: "st3 ''tau'' = Some (Leaf (Num 1))"
    by (simp add: two_walkers_def)
  from inst have e: "ess_of (Arr [Num 0, Num 0]) = Fin 2"
    by (auto dest!: spec[of _ "[0, -1]"])
  from h7 h8 a b r t e show ?thesis by blast
qed

end
